theory Spec2Isabelle
  imports Main "HOL-Library.Word"
begin

unbundle bit_operations_syntax

section \<open>Data model of \<open>cache.go\<close>\<close>

text \<open>
  The cache is modelled sequentially: the \<open>sync.RWMutex\<close> is left out and every
  \<open>atomic.Uint64\<close> operation (\<open>Load\<close>, \<open>Store\<close>, \<open>And\<close>, \<open>Or\<close>) is the plain
  operation on a 64-bit word. Keys and values are of any type of class \<open>zero\<close>; \<open>0\<close>
  stands for the zero value of the Go type (\<open>item[K, V]{}\<close> has all three fields zero).

  The Go \<open>int\<close> fields \<open>len\<close>, \<open>handIdx\<close> and the values of the map \<open>idx\<close> are
  natural numbers here: the code only ever stores non-negative values in them. The one
  place where the code can go below zero, \<open>c.len--\<close> in \<open>Delete\<close>, is written out
  (the next slice access would panic). The argument of \<open>Init\<close> is a Go \<open>int\<close> of any
  sign and is computed with as a 64-bit word.

  \<open>make\<close> of a slice panics when the length is negative or beyond what the runtime
  allocates. That limit is not in the repository (it is the runtime's \<open>maxAlloc\<close> divided
  by the size of an item, so it depends on the platform and on the types \<open>K\<close> and \<open>V\<close>):
  \<open>Init\<close> and \<open>New\<close> take it as their first argument \<open>lim\<close>, the largest length for
  which \<open>make([]item[K, V], n)\<close> returns.

  A run-time panic is a value of type \<open>error\<close>; every operation that indexes a slice
  returns \<open>error + result\<close>.
\<close>

type_synonym uint64 = "64 word"

datatype error = IndexOutOfRange | LenOutOfRange

record ('k, 'v) item =
  key :: 'k
  value' :: 'v
  bit' :: uint64

record ('k, 'v) Cache =
  idx :: "'k \<rightharpoonup> nat"
  items :: "('k, 'v) item list"
  bits :: "uint64 list"
  handIdx :: nat
  handMask :: uint64
  len :: nat

definition zero_item :: "('k::zero, 'v::zero) item" where
  "zero_item = \<lparr>key = 0, value' = 0, bit' = 0\<rparr>"

text \<open>The zero value \<open>Cache[K, V]{}\<close>, as \<open>new(Cache[K, V])\<close> gives it: a nil map reads
  as the empty map, nil slices have length 0.\<close>

definition zero_Cache :: "('k, 'v) Cache" where
  "zero_Cache = \<lparr>idx = Map.empty, items = [], bits = [], handIdx = 0, handMask = 0, len = 0\<rparr>"

text \<open>\<open>bits.TrailingZeros64\<close> of the Go standard library: the number of trailing zero
  bits, 64 for the word 0.\<close>

primrec tz_loop :: "nat \<Rightarrow> uint64 \<Rightarrow> nat" where
  "tz_loop 0 w = 0"
| "tz_loop (Suc n) w = (if bit w 0 then 0 else Suc (tz_loop n (drop_bit 1 w)))"

definition TrailingZeros64 :: "uint64 \<Rightarrow> nat" where
  "TrailingZeros64 w = tz_loop 64 w"

text \<open>Advancing the hand by one word, wrapping to 0 at the end:
  \<open>if c.handIdx++; c.handIdx == len(c.bits) { c.handIdx = 0 }\<close>.\<close>

definition next_hand :: "nat \<Rightarrow> nat \<Rightarrow> nat" where
  "next_hand n h = (if h + 1 = n then 0 else h + 1)"

section \<open>Operations\<close>

text \<open>\<open>Init\<close>: \<open>size = (size + 63) & ^63\<close> on 64-bit signed integers. \<open>make\<close> of the map
  takes any size hint. \<open>make\<close> of \<open>c.items\<close> panics when the size is negative or larger than
  \<open>lim\<close>. \<open>c.bits\<close> is shorter than \<open>c.items\<close> and its words are no larger than an item
  (an item holds a \<open>uint64\<close>), so its \<open>make\<close> returns whenever that of \<open>c.items\<close> does.
  \<open>c.bits[0]\<close> panics on an empty slice. \<open>c.len\<close> is not assigned.\<close>

definition Init ::
  "nat \<Rightarrow> ('k::zero, 'v::zero) Cache \<Rightarrow> int \<Rightarrow> error + ('k, 'v) Cache" where
  "Init lim c n =
    (let sz = sint (((word_of_int n :: uint64) + 63) AND NOT 63) in
     if sz < 0 \<or> int lim < sz then Inl LenOutOfRange
     else if nat sz div 64 = 0 then Inl IndexOutOfRange
     else Inr (c\<lparr>idx := Map.empty,
                 items := replicate (nat sz) zero_item,
                 bits := (replicate (nat sz div 64) 0)[0 := - 1],
                 handIdx := 0,
                 handMask := - 1\<rparr>))"

definition New :: "nat \<Rightarrow> int \<Rightarrow> error + ('k::zero, 'v::zero) Cache" where
  "New lim n = Init lim zero_Cache n"

definition Reset :: "('k::zero, 'v::zero) Cache \<Rightarrow> ('k, 'v) Cache" where
  "Reset c = c\<lparr>idx := Map.empty,
              len := 0,
              items := map (\<lambda>_. zero_item) (items c),
              handIdx := 0,
              handMask := - 1\<rparr>"

definition Cap :: "('k, 'v) Cache \<Rightarrow> nat" where
  "Cap c = length (items c)"

definition Len :: "('k, 'v) Cache \<Rightarrow> nat" where
  "Len c = len c"

definition Get :: "('k, 'v::zero) Cache \<Rightarrow> 'k \<Rightarrow> error + (('k, 'v) Cache \<times> 'v \<times> bool)" where
  "Get c k =
    (case idx c k of
       None \<Rightarrow> Inr (c, 0, False)
     | Some i \<Rightarrow>
        if i < length (items c) \<and> i div 64 < length (bits c)
        then Inr (c\<lparr>bits := (bits c)[i div 64 := bits c ! (i div 64) AND bit' (items c ! i)]\<rparr>,
                  value' (items c ! i), True)
        else Inl IndexOutOfRange)"

definition Has :: "('k, 'v) Cache \<Rightarrow> 'k \<Rightarrow> ('k, 'v) Cache \<times> bool" where
  "Has c k = (c, idx c k \<noteq> None)"

text \<open>The inner loop of the eviction sweep (lines 135 to 140): while the word under the
  hand is zero, store all-ones and advance. It returns the bitmap, the hand index and the
  word last loaded.\<close>

function sweep :: "uint64 list \<Rightarrow> nat \<Rightarrow> error + (uint64 list \<times> nat \<times> uint64)" where
  "sweep bs h =
    (if h < length bs
     then (if bs ! h = 0 then sweep (bs[h := - 1]) (next_hand (length bs) h)
           else Inr (bs, h, bs ! h))
     else Inl IndexOutOfRange)"
  by pat_completeness auto

lemma zero_count_update:
  "h < length bs \<Longrightarrow> bs ! h = (0::uint64) \<Longrightarrow>
   length (filter (\<lambda>w. w = 0) (bs[h := - 1])) < length (filter (\<lambda>w. w = 0) bs)"
proof (induction bs arbitrary: h)
  case Nil
  then show ?case by simp
next
  case (Cons a bs)
  show ?case
  proof (cases h)
    case 0
    with Cons.prems show ?thesis by simp
  next
    case (Suc j)
    with Cons.prems Cons.IH [of j] show ?thesis by simp
  qed
qed

termination sweep
  by (relation "measure (\<lambda>(bs, h). length (filter (\<lambda>w. w = 0) bs))")
     (simp_all add: zero_count_update)

declare sweep.simps [simp del]

text \<open>Lines 128 to 141: locate the word that holds the next element to eject.\<close>

definition locate :: "('k, 'v) Cache \<Rightarrow> error + (('k, 'v) Cache \<times> uint64)" where
  "locate c =
    (if handIdx c < length (bits c)
     then (let mbits = bits c ! handIdx c AND handMask c in
           if mbits = 0
           then (case sweep ((bits c)[handIdx c := bits c ! handIdx c OR handMask c])
                            (next_hand (length (bits c)) (handIdx c)) of
                   Inl e \<Rightarrow> Inl e
                 | Inr (bs, h, m) \<Rightarrow> Inr (c\<lparr>bits := bs, handIdx := h, handMask := - 1\<rparr>, m))
           else Inr (c, mbits))
     else Inl IndexOutOfRange)"

text \<open>Lines 143 to 161: eject the element at the lowest set bit of \<open>mbits\<close> and move
  the hand past it.\<close>

definition evict ::
  "('k, 'v) Cache \<Rightarrow> uint64 \<Rightarrow> 'k \<Rightarrow> 'v \<Rightarrow> error + (('k, 'v) Cache \<times> 'v \<times> bool)" where
  "evict c mbits k v =
    (let b = TrailingZeros64 mbits;
         i = (handIdx c * 64) OR b
     in if i < length (items c) \<and> handIdx c < length (bits c)
        then (let old = items c ! i;
                  hm = push_bit (b + 1) (- 1 :: uint64)
              in Inr (c\<lparr>idx := ((idx c)(key old := None))(k \<mapsto> i),
                         items := (items c)[i := old\<lparr>key := k, value' := v\<rparr>],
                         bits := (bits c)[handIdx c := bits c ! handIdx c AND bit' old],
                         handMask := (if hm = 0 then - 1 else hm),
                         handIdx := (if hm = 0 then next_hand (length (bits c)) (handIdx c)
                                     else handIdx c)\<rparr>,
                      value' old, True))
        else Inl IndexOutOfRange)"

definition Add ::
  "('k, 'v::zero) Cache \<Rightarrow> 'k \<Rightarrow> 'v \<Rightarrow> error + (('k, 'v) Cache \<times> 'v \<times> bool)" where
  "Add c k v =
    (case idx c k of
       Some i \<Rightarrow>
        if i < length (items c) \<and> i div 64 < length (bits c)
        then Inr (c\<lparr>items := (items c)[i := (items c ! i)\<lparr>value' := v\<rparr>],
                    bits := (bits c)[i div 64 := bits c ! (i div 64) AND bit' (items c ! i)]\<rparr>,
                  value' (items c ! i), True)
        else Inl IndexOutOfRange
     | None \<Rightarrow>
        if len c < length (items c)
        then (if len c div 64 < length (bits c)
              then (let m = NOT (push_bit (len c mod 64) (1 :: uint64))
                    in Inr (c\<lparr>items := (items c)[len c := \<lparr>key = k, value' = v, bit' = m\<rparr>],
                               bits := (bits c)[len c div 64 := bits c ! (len c div 64) AND m],
                               idx := (idx c)(k \<mapsto> len c),
                               len := len c + 1\<rparr>,
                            0, False))
              else Inl IndexOutOfRange)
        else (case locate c of
                Inl e \<Rightarrow> Inl e
              | Inr (c1, mbits) \<Rightarrow> evict c1 mbits k v))"

text \<open>\<open>Delete\<close>. With \<open>c.len = 0\<close> the decrement gives \<open>-1\<close> and the next access to
  \<open>c.items[c.len]\<close> panics. Line 181 zeroes \<open>c.items[c.len]\<close> before line 182 reads
  \<open>c.items[c.len].bit\<close>.\<close>

definition Delete ::
  "('k::zero, 'v::zero) Cache \<Rightarrow> 'k \<Rightarrow> error + (('k, 'v) Cache \<times> 'v \<times> bool)" where
  "Delete c k =
    (case idx c k of
       None \<Rightarrow> Inr (c, 0, False)
     | Some i \<Rightarrow>
        if i < length (items c) \<and> 0 < len c \<and> len c - 1 < length (items c)
        then (let n = len c - 1;
                  v = value' (items c ! i);
                  m = (idx c)(k := None)
              in if n \<noteq> i
                 then (if n div 64 < length (bits c) \<and> i div 64 < length (bits c)
                       then (let last = items c ! n;
                                 its = ((items c)[i := (items c ! i)\<lparr>key := key last,
                                                                     value' := value' last\<rparr>])
                                       [n := zero_item];
                                 bs = (if bits c ! (n div 64) AND NOT (bit' (its ! n)) = 0
                                       then (bits c)[i div 64 :=
                                               bits c ! (i div 64) AND bit' (its ! i)]
                                       else (bits c)[i div 64 :=
                                               bits c ! (i div 64) OR NOT (bit' (its ! i))])
                             in Inr (c\<lparr>idx := m(key last \<mapsto> i),
                                        items := its[n := zero_item],
                                        bits := bs,
                                        len := n\<rparr>, v, True))
                       else Inl IndexOutOfRange)
                 else Inr (c\<lparr>idx := m, items := (items c)[n := zero_item], len := n\<rparr>,
                           v, True))
        else Inl IndexOutOfRange)"

text \<open>The test helper \<open>ejectable\<close> of \<open>cache_test.go\<close>: whether the bit of slot \<open>i\<close>
  is set.\<close>

definition ejectable :: "('k, 'v) Cache \<Rightarrow> nat \<Rightarrow> bool" where
  "ejectable c i = (bits c ! (i div 64) AND push_bit (i mod 64) 1 = push_bit (i mod 64) 1)"

section \<open>Invariants\<close>

text \<open>The invariant that the test helper \<open>check\<close> of \<open>cache_test.go\<close> tests, in three
  parts. \<open>structural\<close>: the index map has \<open>len\<close> entries, each pointing at a slot below
  \<open>len\<close> that holds its key. \<open>hand_ok\<close>: one bitmap word per 64 slots, the hand inside the
  bitmap (\<open>check\<close> also lets \<open>handIdx = len(bits)\<close> pass, which \<open>Add\<close> would not
  survive), the hand mask all-ones shifted left by less than 64. \<open>masks_ok\<close>: every
  occupied slot carries the mask of its own position.\<close>

definition structural :: "('k, 'v) Cache \<Rightarrow> bool" where
  "structural c \<longleftrightarrow>
     finite (dom (idx c)) \<and> card (dom (idx c)) = len c \<and> len c \<le> length (items c) \<and>
     (\<forall>k i. idx c k = Some i \<longrightarrow> i < len c \<and> key (items c ! i) = k)"

definition hand_ok :: "('k, 'v) Cache \<Rightarrow> bool" where
  "hand_ok c \<longleftrightarrow>
     length (items c) = 64 * length (bits c) \<and> handIdx c < length (bits c) \<and>
     (\<exists>s<64. handMask c = push_bit s (- 1))"

definition masks_ok :: "('k, 'v) Cache \<Rightarrow> bool" where
  "masks_ok c \<longleftrightarrow> (\<forall>i<len c. bit' (items c ! i) = NOT (push_bit (i mod 64) 1))"

definition wf :: "('k, 'v) Cache \<Rightarrow> bool" where
  "wf c \<longleftrightarrow> structural c \<and> hand_ok c \<and> masks_ok c"

section \<open>Test states\<close>

text \<open>States that the public operations reach from \<open>New 64\<close> (under any allocation
  limit of at least 64 items), with keys and values of
  type \<open>nat\<close>: the empty cache and the caches after \<open>Add 1 10\<close>, then \<open>Add 2 20\<close>, then
  \<open>Add 3 30\<close>.\<close>

definition fresh64 :: "(nat, nat) Cache" where
  "fresh64 = \<lparr>idx = Map.empty, items = replicate 64 zero_item, bits = [- 1],
              handIdx = 0, handMask = - 1, len = 0\<rparr>"

definition one_entry :: "(nat, nat) Cache" where
  "one_entry = \<lparr>idx = [1 \<mapsto> 0],
                items = (replicate 64 zero_item)[0 := \<lparr>key = 1, value' = 10, bit' = NOT 1\<rparr>],
                bits = [NOT 1], handIdx = 0, handMask = - 1, len = 1\<rparr>"

definition two_entries :: "(nat, nat) Cache" where
  "two_entries = \<lparr>idx = [1 \<mapsto> 0, 2 \<mapsto> 1],
                items = (replicate 64 zero_item)
                  [0 := \<lparr>key = 1, value' = 10, bit' = NOT 1\<rparr>,
                   1 := \<lparr>key = 2, value' = 20, bit' = NOT 2\<rparr>],
                bits = [NOT 3], handIdx = 0, handMask = - 1, len = 2\<rparr>"

definition three_entries :: "(nat, nat) Cache" where
  "three_entries = \<lparr>idx = [1 \<mapsto> 0, 2 \<mapsto> 1, 3 \<mapsto> 2],
                items = (replicate 64 zero_item)
                  [0 := \<lparr>key = 1, value' = 10, bit' = NOT 1\<rparr>,
                   1 := \<lparr>key = 2, value' = 20, bit' = NOT 2\<rparr>,
                   2 := \<lparr>key = 3, value' = 30, bit' = NOT 4\<rparr>],
                bits = [NOT 7], handIdx = 0, handMask = - 1, len = 3\<rparr>"

text \<open>A full cache of \<open>64 * length bs\<close> slots as \<open>Add i (100 + i)\<close> for
  \<open>i = 0, 1, ...\<close> fills it, with the bitmap and the hand set as the tests set them
  (\<open>setEjectable\<close>, \<open>c.bits[i].Store\<close>, \<open>c.handIdx = ...\<close>). \<open>full64_slot5\<close> is the
  cache of capacity 64 in which only slot 5 is ejectable; \<open>second_word_slot5\<close> has 128
  slots, the hand in word 0 past bit 2, and only slot 69 (bit 5 of word 1) ejectable.\<close>

definition full_cache :: "uint64 list \<Rightarrow> nat \<Rightarrow> uint64 \<Rightarrow> (nat, nat) Cache" where
  "full_cache bs h m =
     \<lparr>idx = (\<lambda>k. if k < 64 * length bs then Some k else None),
      items = map (\<lambda>i. \<lparr>key = i, value' = 100 + i, bit' = NOT (push_bit (i mod 64) 1)\<rparr>)
                  [0..<64 * length bs],
      bits = bs, handIdx = h, handMask = m, len = 64 * length bs\<rparr>"

definition full64_slot5 :: "(nat, nat) Cache" where
  "full64_slot5 = full_cache [32] 0 (- 1)"

definition second_word_slot5 :: "(nat, nat) Cache" where
  "second_word_slot5 = full_cache [0, 32] 0 (push_bit 3 (- 1))"

text \<open>The cache of capacity 64 after \<open>Add i (100 + i)\<close> for \<open>i < m\<close>, the loop with which
  the tests fill a cache.\<close>

definition partial_fill :: "nat \<Rightarrow> (nat, nat) Cache" where
  "partial_fill m =
     \<lparr>idx = (\<lambda>k. if k < m then Some k else None),
      items = map (\<lambda>i. if i < m
                        then \<lparr>key = i, value' = 100 + i, bit' = NOT (push_bit (i mod 64) 1)\<rparr>
                        else zero_item) [0..<64],
      bits = [push_bit m (- 1)], handIdx = 0, handMask = - 1, len = m\<rparr>"

section \<open>The sweep loop with a bound\<close>

text \<open>The loop of \<open>sweep\<close> with a bound on the number of words it loads: \<open>None\<close> when
  the bound is used up before the loop ends.\<close>

primrec sweep_fuel ::
  "nat \<Rightarrow> uint64 list \<Rightarrow> nat \<Rightarrow> (error + (uint64 list \<times> nat \<times> uint64)) option" where
  "sweep_fuel 0 bs h = None"
| "sweep_fuel (Suc f) bs h =
    (if h < length bs
     then (if bs ! h = 0 then sweep_fuel f (bs[h := - 1]) (next_hand (length bs) h)
           else Some (Inr (bs, h, bs ! h)))
     else Some (Inl IndexOutOfRange))"

section \<open>Trailing zeros and word arithmetic\<close>

lemma tz_loop_le: "tz_loop n w \<le> n"
  by (induction n arbitrary: w) auto

lemma tz_loop_low: "j < tz_loop n w \<Longrightarrow> \<not> bit w j"
proof (induction n arbitrary: w j)
  case 0
  then show ?case by simp
next
  case (Suc n)
  show ?case
  proof (cases j)
    case 0
    with Suc.prems show ?thesis by (auto split: if_splits)
  next
    case (Suc i)
    with Suc.prems have "i < tz_loop n (drop_bit 1 w)" by (auto split: if_splits)
    then have "\<not> bit (drop_bit 1 w) i" by (rule Suc.IH)
    with Suc show ?thesis by (simp add: bit_drop_bit_eq)
  qed
qed

lemma tz_loop_bit: "tz_loop n w < n \<Longrightarrow> bit w (tz_loop n w)"
proof (induction n arbitrary: w)
  case 0
  then show ?case by simp
next
  case (Suc n)
  show ?case
  proof (cases "bit w 0")
    case True
    then show ?thesis by simp
  next
    case False
    with Suc.prems have "tz_loop n (drop_bit 1 w) < n" by simp
    then have "bit (drop_bit 1 w) (tz_loop n (drop_bit 1 w))" by (rule Suc.IH)
    with False show ?thesis by (simp add: bit_drop_bit_eq)
  qed
qed

lemma tz_lt_64: "w \<noteq> 0 \<Longrightarrow> TrailingZeros64 w < 64"
proof (rule ccontr)
  assume nz: "w \<noteq> 0" and "\<not> TrailingZeros64 w < 64"
  with tz_loop_le [of 64 w] have "tz_loop 64 w = 64" by (simp add: TrailingZeros64_def)
  then have "\<And>j. j < 64 \<Longrightarrow> \<not> bit w j" using tz_loop_low [of _ 64 w] by simp
  then have "w = 0" by (auto intro!: bit_eqI simp add: bit_simps dest: bit_imp_le_length)
  with nz show False by simp
qed

lemma tz_bit: "w \<noteq> 0 \<Longrightarrow> bit w (TrailingZeros64 w)"
  using tz_lt_64 [of w] tz_loop_bit [of 64 w] by (simp add: TrailingZeros64_def)

lemma tz_low: "j < TrailingZeros64 w \<Longrightarrow> \<not> bit w j"
  using tz_loop_low [of j 64 w] by (simp add: TrailingZeros64_def)

lemma tz_unique: "bit w b \<Longrightarrow> (\<And>j. j < b \<Longrightarrow> \<not> bit w j) \<Longrightarrow> TrailingZeros64 w = b"
proof -
  assume b: "bit w b" and low: "\<And>j. j < b \<Longrightarrow> \<not> bit w j"
  from b have "w \<noteq> 0" by auto
  then have "bit w (TrailingZeros64 w)" by (rule tz_bit)
  with low have "\<not> TrailingZeros64 w < b" by blast
  moreover from b tz_low [of b w] have "\<not> b < TrailingZeros64 w" by blast
  ultimately show ?thesis by simp
qed

lemma or_64: "b < 64 \<Longrightarrow> (h * 64) OR b = h * 64 + (b::nat)"
proof -
  assume b: "b < 64"
  have "h * 64 + b = (h * 64) OR b"
  proof (rule disjunctive_add)
    fix n
    show "\<not> bit (h * 64) n \<or> \<not> bit b n"
    proof (cases "n < 6")
      case True
      have "h * 64 = push_bit 6 h" by (simp add: push_bit_eq_mult)
      with True show ?thesis by (simp add: bit_push_bit_iff)
    next
      case False
      then have "(2::nat) ^ 6 \<le> 2 ^ n" by (intro power_increasing) simp_all
      with b have "b < 2 ^ n" by simp
      then show ?thesis by (simp add: bit_iff_odd)
    qed
  qed
  then show ?thesis by simp
qed

lemma and_not_63_int: "(m::int) AND NOT 63 = 64 * (m div 64)"
proof -
  have "m AND NOT (mask 6) = push_bit 6 (drop_bit 6 m)"
    by (rule bit_eqI) (auto simp add: bit_simps)
  then show ?thesis by (simp add: push_bit_eq_mult drop_bit_eq_div mask_eq_exp_minus_1)
qed

lemma sint_of_int_range:
  "- (2 ^ 63) \<le> m \<Longrightarrow> m < 2 ^ 63 \<Longrightarrow> sint (word_of_int m :: uint64) = m"
  by (simp add: sint_sbintrunc' signed_take_bit_int_eq_self)

lemma round_up_sint:
  assumes "- (2 ^ 63) \<le> n + 63" "n + 63 < 2 ^ 63"
  shows "sint (((word_of_int n :: uint64) + 63) AND NOT 63) = 64 * ((n + 63) div 64)"
proof -
  have a: "(word_of_int n :: uint64) + 63 = word_of_int (n + 63)" by simp
  have b: "sint (word_of_int (n + 63) :: uint64) = n + 63"
    using assms by (rule sint_of_int_range)
  have c: "sint (NOT 63 :: uint64) = NOT 63" by simp
  show ?thesis
    by (simp only: a signed_and_eq b c and_not_63_int)
qed

section \<open>The sweep loop\<close>

lemma next_hand_less: "h < n \<Longrightarrow> next_hand n h < n"
  by (auto simp add: next_hand_def)

lemma next_hand_mod: "h < n \<Longrightarrow> (next_hand n h + t) mod n = (h + Suc t) mod n"
proof (cases "h + 1 = n")
  case True
  then have "h + Suc t = n + t" by simp
  then have "(h + Suc t) mod n = t mod n" by (simp only: mod_add_self1)
  with True show ?thesis by (simp add: next_hand_def)
next
  case False
  then show ?thesis by (simp add: next_hand_def)
qed

lemma offset_neq: "h < n \<Longrightarrow> 0 < s \<Longrightarrow> s < n \<Longrightarrow> (h + s) mod n \<noteq> (h::nat)"
  by (auto simp add: mod_if)

lemma sweep_ok:
  "h < length bs \<Longrightarrow>
   \<exists>bs' h'. sweep bs h = Inr (bs', h', bs' ! h') \<and> length bs' = length bs \<and>
            h' < length bs \<and> bs' ! h' \<noteq> 0"
proof (induction bs h rule: sweep.induct)
  case (1 bs h)
  show ?case
  proof (cases "bs ! h = 0")
    case True
    with "1.prems" "1.IH" [OF "1.prems" True] show ?thesis
      by (subst sweep.simps) (auto simp add: next_hand_less)
  next
    case False
    with "1.prems" show ?thesis by (subst sweep.simps) simp
  qed
qed

lemma sweep_char:
  "h < length bs \<Longrightarrow> d < length bs \<Longrightarrow>
   (\<forall>t<d. bs ! ((h + t) mod length bs) = 0) \<Longrightarrow>
   bs ! ((h + d) mod length bs) \<noteq> 0 \<Longrightarrow>
   \<exists>bs'. sweep bs h = Inr (bs', (h + d) mod length bs, bs ! ((h + d) mod length bs)) \<and>
         length bs' = length bs \<and>
         (\<forall>t<d. bs' ! ((h + t) mod length bs) = - 1) \<and>
         (\<forall>j<length bs. (\<forall>t<d. j \<noteq> (h + t) mod length bs) \<longrightarrow> bs' ! j = bs ! j)"
proof (induction d arbitrary: bs h)
  case 0
  then show ?case by (subst sweep.simps) simp
next
  case (Suc d)
  let ?n = "length bs"
  let ?bs1 = "bs[h := - 1]"
  let ?h1 = "next_hand ?n h"
  from Suc.prems have z: "bs ! h = 0" by (auto dest: spec [of _ 0])
  have h1: "?h1 < length ?bs1" using Suc.prems by (simp add: next_hand_less)
  have d: "d < length ?bs1" using Suc.prems by simp
  have idx: "(?h1 + t) mod ?n = (h + Suc t) mod ?n" for t
    using Suc.prems by (simp add: next_hand_mod)
  have ne: "(h + Suc t) mod ?n \<noteq> h" if "t \<le> d" for t
    using offset_neq [of h ?n "Suc t"] that Suc.prems by simp
  have zs: "\<forall>t<d. ?bs1 ! ((?h1 + t) mod length ?bs1) = 0"
  proof (intro allI impI)
    fix t assume t: "t < d"
    then have "bs ! ((h + Suc t) mod ?n) = 0" using Suc.prems by auto
    with ne [of t] t show "?bs1 ! ((?h1 + t) mod length ?bs1) = 0"
      by (simp add: idx)
  qed
  have nz: "?bs1 ! ((?h1 + d) mod length ?bs1) \<noteq> 0"
    using Suc.prems ne [of d] by (simp add: idx)
  from Suc.IH [OF h1 d zs nz] obtain bs' where
    sw: "sweep ?bs1 ?h1 = Inr (bs', (?h1 + d) mod ?n, ?bs1 ! ((?h1 + d) mod ?n))"
    and len: "length bs' = ?n"
    and ones: "\<forall>t<d. bs' ! ((?h1 + t) mod ?n) = - 1"
    and same: "\<forall>j<?n. (\<forall>t<d. j \<noteq> (?h1 + t) mod ?n) \<longrightarrow> bs' ! j = ?bs1 ! j"
    by auto
  have "sweep bs h = sweep ?bs1 ?h1"
    using Suc.prems z by (subst sweep.simps) simp
  also have "\<dots> = Inr (bs', (h + Suc d) mod ?n, bs ! ((h + Suc d) mod ?n))"
    using sw ne [of d] by (simp add: idx)
  finally have r: "sweep bs h = Inr (bs', (h + Suc d) mod ?n, bs ! ((h + Suc d) mod ?n))" .
  have hh: "bs' ! h = - 1"
  proof -
    have "\<forall>t<d. h \<noteq> (?h1 + t) mod ?n"
    proof (intro allI impI)
      fix t assume "t < d"
      then have "t \<le> d" by simp
      from ne [OF this] show "h \<noteq> (?h1 + t) mod ?n" by (simp add: idx)
    qed
    with same Suc.prems have "bs' ! h = ?bs1 ! h" by simp
    with Suc.prems show ?thesis by simp
  qed
  have ones': "\<forall>t<Suc d. bs' ! ((h + t) mod ?n) = - 1"
  proof (intro allI impI)
    fix t assume t: "t < Suc d"
    show "bs' ! ((h + t) mod ?n) = - 1"
    proof (cases t)
      case 0
      with hh Suc.prems show ?thesis by simp
    next
      case (Suc u)
      with t ones have "bs' ! ((?h1 + u) mod ?n) = - 1" by simp
      with Suc show ?thesis by (simp add: idx)
    qed
  qed
  have same': "\<forall>j<?n. (\<forall>t<Suc d. j \<noteq> (h + t) mod ?n) \<longrightarrow> bs' ! j = bs ! j"
  proof (intro allI impI)
    fix j assume j: "j < ?n" and nv: "\<forall>t<Suc d. j \<noteq> (h + t) mod ?n"
    from nv Suc.prems have jh: "j \<noteq> h" by (auto dest: spec [of _ 0])
    from nv have "\<forall>t<d. j \<noteq> (?h1 + t) mod ?n" by (auto simp add: idx)
    with same j have "bs' ! j = ?bs1 ! j" by simp
    with jh show "bs' ! j = bs ! j" by simp
  qed
  from r len ones' same' show ?case by blast
qed

lemma first_nonzero_offset:
  assumes "h < length bs" "j < length bs" "bs ! j \<noteq> (0::uint64)"
  shows "\<exists>d<length bs. (\<forall>t<d. bs ! ((h + t) mod length bs) = 0) \<and>
                      bs ! ((h + d) mod length bs) \<noteq> 0"
proof -
  let ?n = "length bs"
  let ?P = "\<lambda>t. bs ! ((h + t) mod ?n) \<noteq> 0"
  let ?t0 = "(j + ?n - h) mod ?n"
  have "(h + ?t0) mod ?n = (h + (j + ?n - h)) mod ?n" by (simp add: mod_add_right_eq)
  also have "\<dots> = j" using assms by simp
  finally have P0: "?P ?t0" using assms by simp
  let ?d = "LEAST t. ?P t"
  have "?P ?d" using P0 by (rule LeastI)
  moreover have "?d \<le> ?t0" using P0 by (rule Least_le)
  moreover have "0 < ?n" using assms(1) by (cases bs) simp_all
  then have "?t0 < ?n" by (rule mod_less_divisor)
  moreover have "\<forall>t<?d. \<not> ?P t" using not_less_Least by blast
  ultimately show ?thesis by (intro exI [of _ ?d]) auto
qed

section \<open>Consequences of the invariant\<close>

lemma shifted_ones_nonzero: "s < 64 \<Longrightarrow> push_bit s (- 1 :: uint64) \<noteq> 0"
proof
  assume s: "s < 64" and z: "push_bit s (- 1 :: uint64) = 0"
  from s have "bit (push_bit s (- 1 :: uint64)) s" by (simp add: bit_simps)
  with z show False by simp
qed

lemma hand_ok_mask: "hand_ok c \<Longrightarrow> handMask c \<noteq> 0"
  unfolding hand_ok_def using shifted_ones_nonzero by metis

lemma slot_indexed:
  assumes "structural c" "i < len c"
  shows "idx c (key (items c ! i)) = Some i"
proof -
  let ?D = "dom (idx c)"
  let ?f = "\<lambda>k. the (idx c k)"
  from assms(1) have fin: "finite ?D" and card: "card ?D = len c"
    and ent: "\<And>k j. idx c k = Some j \<Longrightarrow> j < len c \<and> key (items c ! j) = k"
    by (auto simp add: structural_def)
  have inj: "inj_on ?f ?D"
  proof (rule inj_onI)
    fix a b assume "a \<in> ?D" "b \<in> ?D" "?f a = ?f b"
    then obtain j where "idx c a = Some j" "idx c b = Some j" by auto
    with ent [of a j] ent [of b j] show "a = b" by simp
  qed
  have sub: "?f ` ?D \<subseteq> {..<len c}" using ent by auto
  have "card (?f ` ?D) = len c" using inj card by (simp add: card_image)
  with sub have "?f ` ?D = {..<len c}" by (intro card_subset_eq) simp_all
  with assms(2) have "i \<in> ?f ` ?D" by simp
  then obtain k where "k \<in> ?D" "?f k = i" by auto
  then have "idx c k = Some i" by auto
  with ent [of k i] show ?thesis by simp
qed

lemma locate_ok:
  assumes "handIdx c < length (bits c)" "handMask c \<noteq> 0"
  shows "\<exists>c1 m. locate c = Inr (c1, m) \<and> m \<noteq> 0 \<and>
           length (bits c1) = length (bits c) \<and> handIdx c1 < length (bits c) \<and>
           idx c1 = idx c \<and> items c1 = items c \<and> len c1 = len c"
proof (cases "bits c ! handIdx c AND handMask c = 0")
  case True
  let ?bs1 = "(bits c)[handIdx c := bits c ! handIdx c OR handMask c]"
  have "next_hand (length (bits c)) (handIdx c) < length ?bs1"
    using assms by (simp add: next_hand_less)
  from sweep_ok [OF this] obtain bs' h' where
    "sweep ?bs1 (next_hand (length (bits c)) (handIdx c)) = Inr (bs', h', bs' ! h')"
    "length bs' = length (bits c)" "h' < length (bits c)" "bs' ! h' \<noteq> 0" by auto
  with True assms show ?thesis by (simp add: locate_def)
next
  case False
  with assms show ?thesis by (simp add: locate_def Let_def)
qed

lemma wf_index_range:
  assumes "wf c" "idx c k = Some i"
  shows "i < len c" "i < length (items c)" "i div 64 < length (bits c)"
    "key (items c ! i) = k" "bit' (items c ! i) = NOT (push_bit (i mod 64) 1)"
proof -
  from assms show a: "i < len c" and "key (items c ! i) = k"
    by (auto simp add: wf_def structural_def)
  from assms have "len c \<le> length (items c)" by (simp add: wf_def structural_def)
  with a show b: "i < length (items c)" by simp
  from assms b show "i div 64 < length (bits c)" by (auto simp add: wf_def hand_ok_def)
  from assms a show "bit' (items c ! i) = NOT (push_bit (i mod 64) 1)"
    by (auto simp add: wf_def masks_ok_def)
qed

lemma Add_overwrite:
  assumes "wf c" "idx c k = Some i"
  shows "Add c k v =
     Inr (c\<lparr>items := (items c)[i := (items c ! i)\<lparr>value' := v\<rparr>],
            bits := (bits c)[i div 64 := bits c ! (i div 64) AND NOT (push_bit (i mod 64) 1)]\<rparr>,
          value' (items c ! i), True)"
  using wf_index_range [OF assms] assms(2) by (simp add: Add_def)

lemma Add_append:
  assumes "wf c" "idx c k = None" "len c < length (items c)"
  shows "Add c k v =
     Inr (c\<lparr>items := (items c)[len c := \<lparr>key = k, value' = v,
                                            bit' = NOT (push_bit (len c mod 64) 1)\<rparr>],
            bits := (bits c)[len c div 64 :=
                       bits c ! (len c div 64) AND NOT (push_bit (len c mod 64) 1)],
            idx := (idx c)(k \<mapsto> len c),
            len := len c + 1\<rparr>, 0, False)"
proof -
  from assms have "len c div 64 < length (bits c)" by (auto simp add: wf_def hand_ok_def)
  with assms show ?thesis by (simp add: Add_def Let_def)
qed

lemma evict_ok:
  assumes "handIdx c < length (bits c)" "length (items c) = 64 * length (bits c)" "m \<noteq> 0"
  shows "handIdx c * 64 + TrailingZeros64 m < length (items c)"
    and "evict c m k v =
      Inr (c\<lparr>idx := ((idx c)(key (items c ! (handIdx c * 64 + TrailingZeros64 m)) := None))
                     (k \<mapsto> handIdx c * 64 + TrailingZeros64 m),
             items := (items c)[handIdx c * 64 + TrailingZeros64 m :=
                         (items c ! (handIdx c * 64 + TrailingZeros64 m))\<lparr>key := k, value' := v\<rparr>],
             bits := (bits c)[handIdx c := bits c ! handIdx c AND
                         bit' (items c ! (handIdx c * 64 + TrailingZeros64 m))],
             handMask := (if push_bit (TrailingZeros64 m + 1) (- 1 :: uint64) = 0 then - 1
                          else push_bit (TrailingZeros64 m + 1) (- 1)),
             handIdx := (if push_bit (TrailingZeros64 m + 1) (- 1 :: uint64) = 0
                         then next_hand (length (bits c)) (handIdx c) else handIdx c)\<rparr>,
           value' (items c ! (handIdx c * 64 + TrailingZeros64 m)), True)"
proof -
  from assms(3) have b: "TrailingZeros64 m < 64" by (rule tz_lt_64)
  then have o: "(handIdx c * 64) OR TrailingZeros64 m = handIdx c * 64 + TrailingZeros64 m"
    by (rule or_64)
  from assms b show r: "handIdx c * 64 + TrailingZeros64 m < length (items c)" by simp
  with assms show "evict c m k v = Inr (c\<lparr>idx := ((idx c)(key (items c ! (handIdx c * 64 + TrailingZeros64 m)) := None))
                     (k \<mapsto> handIdx c * 64 + TrailingZeros64 m),
             items := (items c)[handIdx c * 64 + TrailingZeros64 m :=
                         (items c ! (handIdx c * 64 + TrailingZeros64 m))\<lparr>key := k, value' := v\<rparr>],
             bits := (bits c)[handIdx c := bits c ! handIdx c AND
                         bit' (items c ! (handIdx c * 64 + TrailingZeros64 m))],
             handMask := (if push_bit (TrailingZeros64 m + 1) (- 1 :: uint64) = 0 then - 1
                          else push_bit (TrailingZeros64 m + 1) (- 1)),
             handIdx := (if push_bit (TrailingZeros64 m + 1) (- 1 :: uint64) = 0
                         then next_hand (length (bits c)) (handIdx c) else handIdx c)\<rparr>,
           value' (items c ! (handIdx c * 64 + TrailingZeros64 m)), True)"
    unfolding evict_def Let_def o by simp
qed

lemma Add_full:
  assumes "idx c k = None" "\<not> len c < length (items c)" "locate c = Inr (c1, m)"
  shows "Add c k v = evict c1 m k v"
  using assms by (simp add: Add_def)

lemma locate_hit:
  "handIdx c < length (bits c) \<Longrightarrow> bits c ! handIdx c AND handMask c \<noteq> 0 \<Longrightarrow>
   locate c = Inr (c, bits c ! handIdx c AND handMask c)"
  by (simp add: locate_def Let_def)

lemma locate_sweep:
  assumes h: "handIdx c < length (bits c)"
    and z: "bits c ! handIdx c AND handMask c = 0"
    and d: "d < length (bits c)"
    and zs: "\<forall>t<d. (bits c)[handIdx c := bits c ! handIdx c OR handMask c]
                      ! ((handIdx c + 1 + t) mod length (bits c)) = 0"
    and nz: "(bits c)[handIdx c := bits c ! handIdx c OR handMask c]
                      ! ((handIdx c + 1 + d) mod length (bits c)) \<noteq> 0"
  shows "\<exists>bs'. locate c =
            Inr (c\<lparr>bits := bs', handIdx := (handIdx c + 1 + d) mod length (bits c),
                   handMask := - 1\<rparr>,
                 (bits c)[handIdx c := bits c ! handIdx c OR handMask c]
                      ! ((handIdx c + 1 + d) mod length (bits c))) \<and>
          length bs' = length (bits c) \<and>
          (\<forall>t<d. bs' ! ((handIdx c + 1 + t) mod length (bits c)) = - 1) \<and>
          (\<forall>j<length (bits c). (\<forall>t<d. j \<noteq> (handIdx c + 1 + t) mod length (bits c)) \<longrightarrow>
              bs' ! j = (bits c)[handIdx c := bits c ! handIdx c OR handMask c] ! j)"
proof -
  let ?n = "length (bits c)"
  let ?bs1 = "(bits c)[handIdx c := bits c ! handIdx c OR handMask c]"
  let ?h1 = "next_hand ?n (handIdx c)"
  have i: "(?h1 + t) mod ?n = (handIdx c + 1 + t) mod ?n" for t
    using h by (simp add: next_hand_mod)
  have a: "?h1 < length ?bs1" using h by (simp add: next_hand_less)
  have b: "d < length ?bs1" using d by simp
  have c: "\<forall>t<d. ?bs1 ! ((?h1 + t) mod length ?bs1) = 0" using zs by (simp add: i)
  have e: "?bs1 ! ((?h1 + d) mod length ?bs1) \<noteq> 0" using nz by (simp add: i)
  from sweep_char [OF a b c e] obtain bs' where
    sw: "sweep ?bs1 ?h1 = Inr (bs', (?h1 + d) mod length ?bs1, ?bs1 ! ((?h1 + d) mod length ?bs1))"
    and l: "length bs' = length ?bs1"
    and o: "\<forall>t<d. bs' ! ((?h1 + t) mod length ?bs1) = - 1"
    and s: "\<forall>j<length ?bs1. (\<forall>t<d. j \<noteq> (?h1 + t) mod length ?bs1) \<longrightarrow> bs' ! j = ?bs1 ! j"
    by blast
  have "locate c = Inr (c\<lparr>bits := bs', handIdx := (handIdx c + 1 + d) mod ?n, handMask := - 1\<rparr>,
                 ?bs1 ! ((handIdx c + 1 + d) mod ?n))"
    using h z sw by (simp add: locate_def i)
  moreover have "length bs' = ?n" using l by simp
  moreover have "\<forall>t<d. bs' ! ((handIdx c + 1 + t) mod ?n) = - 1" using o by (simp add: i)
  moreover have "\<forall>j<?n. (\<forall>t<d. j \<noteq> (handIdx c + 1 + t) mod ?n) \<longrightarrow> bs' ! j = ?bs1 ! j"
    using s by (simp add: i)
  ultimately show ?thesis by blast
qed

lemma tz_32: "TrailingZeros64 32 = 5"
  by code_simp

lemma not_mask_eq_0_iff: "NOT (mask n :: uint64) = 0 \<longleftrightarrow> 64 \<le> n"
proof
  assume z: "NOT (mask n :: uint64) = 0"
  show "64 \<le> n"
  proof (rule ccontr)
    assume "\<not> 64 \<le> n"
    then have "bit (NOT (mask n :: uint64)) n" by (simp add: bit_simps)
    with z show False by simp
  qed
next
  assume "64 \<le> n"
  then show "NOT (mask n :: uint64) = 0"
    by (intro bit_eqI) (auto simp add: bit_simps)
qed

lemma shifted_ones_eq_0_iff: "push_bit n (- 1 :: uint64) = 0 \<longleftrightarrow> 64 \<le> n"
  by (simp add: not_mask_eq_0_iff)

lemma Add_evict:
  assumes wf: "wf c" and k: "idx c k = None" and full: "\<not> len c < length (items c)"
    and loc: "locate c = Inr (c1, w)" and w: "w \<noteq> 0"
    and h1: "handIdx c1 < length (bits c1)" and l1: "length (bits c1) = length (bits c)"
    and i1: "items c1 = items c" and x1: "idx c1 = idx c" and n1: "len c1 = len c"
    and j: "j = handIdx c1 * 64 + TrailingZeros64 w"
  shows "\<exists>c'. Add c k v = Inr (c', value' (items c ! j), True) \<and> j < length (items c) \<and>
           idx c (key (items c ! j)) = Some j \<and> key (items c ! j) \<noteq> k \<and>
           idx c' = ((idx c)(key (items c ! j) := None))(k \<mapsto> j) \<and>
           items c' = (items c)[j := (items c ! j)\<lparr>key := k, value' := v\<rparr>] \<and>
           len c' = len c \<and> length (bits c') = length (bits c) \<and>
           bits c' = (bits c1)[handIdx c1 := bits c1 ! handIdx c1 AND bit' (items c ! j)]"
proof -
  from wf have li: "length (items c) = 64 * length (bits c)" by (simp add: wf_def hand_ok_def)
  then have li1: "length (items c1) = 64 * length (bits c1)" using i1 l1 by simp
  from wf have st: "structural c" by (simp add: wf_def)
  then have "len c \<le> length (items c)" by (simp add: structural_def)
  with full have fl: "len c = length (items c)" by simp
  from evict_ok(1) [OF h1 li1 w] evict_ok(2) [OF h1 li1 w, of k v] have
    r: "j < length (items c)" and
    e: "evict c1 w k v =
      Inr (c1\<lparr>idx := ((idx c1)(key (items c1 ! j) := None))(k \<mapsto> j),
             items := (items c1)[j := (items c1 ! j)\<lparr>key := k, value' := v\<rparr>],
             bits := (bits c1)[handIdx c1 := bits c1 ! handIdx c1 AND bit' (items c1 ! j)],
             handMask := (if push_bit (TrailingZeros64 w + 1) (- 1 :: uint64) = 0 then - 1
                          else push_bit (TrailingZeros64 w + 1) (- 1)),
             handIdx := (if push_bit (TrailingZeros64 w + 1) (- 1 :: uint64) = 0
                         then next_hand (length (bits c1)) (handIdx c1) else handIdx c1)\<rparr>,
           value' (items c1 ! j), True)"
    unfolding j i1 by simp_all
  from r fl have "j < len c" by simp
  with st have s: "idx c (key (items c ! j)) = Some j" by (rule slot_indexed)
  with k have ne: "key (items c ! j) \<noteq> k" by auto
  have "Add c k v = evict c1 w k v" using k full loc by (rule Add_full)
  with e r s ne show ?thesis by (simp add: i1 x1 n1 l1)
qed

lemma Add_evict_ex:
  assumes wf: "wf c" and k: "idx c k = None" and full: "\<not> len c < length (items c)"
  shows "\<exists>c' j. Add c k v = Inr (c', value' (items c ! j), True) \<and> j < length (items c) \<and>
           idx c (key (items c ! j)) = Some j \<and> key (items c ! j) \<noteq> k \<and>
           idx c' = ((idx c)(key (items c ! j) := None))(k \<mapsto> j) \<and>
           items c' = (items c)[j := (items c ! j)\<lparr>key := k, value' := v\<rparr>] \<and>
           len c' = len c \<and> length (bits c') = length (bits c)"
proof -
  from wf have "handIdx c < length (bits c)" "handMask c \<noteq> 0"
    by (simp_all add: wf_def hand_ok_def hand_ok_mask)
  from locate_ok [OF this] obtain c1 w where
    "locate c = Inr (c1, w)" "w \<noteq> 0" "length (bits c1) = length (bits c)"
    "handIdx c1 < length (bits c)" "idx c1 = idx c" "items c1 = items c" "len c1 = len c"
    by blast
  with Add_evict [OF wf k full, of c1 w "handIdx c1 * 64 + TrailingZeros64 w" v]
  show ?thesis by auto
qed

lemma ejectable_iff: "ejectable c i \<longleftrightarrow> bit (bits c ! (i div 64)) (i mod 64)"
proof -
  let ?w = "bits c ! (i div 64)"
  let ?b = "i mod 64"
  have b: "?b < 64" by simp
  have one: "bit (push_bit ?b (1 :: uint64)) j \<longleftrightarrow> j = ?b" for j
    using b by (auto simp add: bit_simps)
  show ?thesis
  proof
    assume "ejectable c i"
    then have "bit (?w AND push_bit ?b 1) ?b = bit (push_bit ?b (1 :: uint64)) ?b"
      by (simp only: ejectable_def)
    then show "bit ?w ?b" by (simp only: bit_and_iff one) simp
  next
    assume w: "bit ?w ?b"
    have "?w AND push_bit ?b 1 = push_bit ?b 1"
      by (rule bit_eqI) (use w in \<open>auto simp only: bit_and_iff one\<close>)
    then show "ejectable c i" by (simp only: ejectable_def)
  qed
qed

lemma cleared_not_ejectable:
  assumes "bits c' = bs[i div 64 := w AND NOT (push_bit (i mod 64) 1)]" "i div 64 < length bs"
  shows "\<not> ejectable c' i"
  using assms by (simp add: ejectable_iff bit_simps)

lemma sweep_fuel_sound: "sweep_fuel f bs h = Some r \<Longrightarrow> sweep bs h = r"
proof (induction f arbitrary: bs h)
  case 0
  then show ?case by simp
next
  case (Suc f)
  show ?case
  proof (cases "h < length bs \<and> bs ! h = 0")
    case True
    with Suc.prems have "sweep_fuel f (bs[h := - 1]) (next_hand (length bs) h) = Some r" by simp
    then have "sweep (bs[h := - 1]) (next_hand (length bs) h) = r" by (rule Suc.IH)
    with True show ?thesis by (subst sweep.simps) simp
  next
    case False
    with Suc.prems show ?thesis by (subst sweep.simps) (auto split: if_splits)
  qed
qed

lemma sweep_fuel_enough:
  "length (filter (\<lambda>w. w = 0) bs) < f \<Longrightarrow> \<exists>r. sweep_fuel f bs h = Some r"
proof (induction f arbitrary: bs h)
  case 0
  then show ?case by simp
next
  case (Suc f)
  show ?case
  proof (cases "h < length bs \<and> bs ! h = 0")
    case True
    then have "length (filter (\<lambda>w. w = 0) (bs[h := - 1])) < length (filter (\<lambda>w. w = 0) bs)"
      by (simp add: zero_count_update)
    with Suc.prems have "length (filter (\<lambda>w. w = 0) (bs[h := - 1])) < f" by simp
    from Suc.IH [OF this] True show ?thesis by simp
  next
    case False
    then show ?thesis by auto
  qed
qed

section \<open>The operations keep the invariant\<close>

text \<open>\<open>New\<close> establishes the invariant; \<open>Reset\<close>, \<open>Get\<close>, \<open>Has\<close>, \<open>Add\<close> and \<open>Delete\<close>
  keep it, and \<open>Delete\<close> never panics on a cache that satisfies it.\<close>

lemma wf_New:
  assumes "(New lim n :: error + ('k::zero, 'v::zero) Cache) = Inr c"
  shows "wf c"
proof -
  let ?sz = "sint (((word_of_int n :: uint64) + 63) AND NOT 63)"
  from assms have a: "\<not> ?sz < 0" "nat ?sz div 64 \<noteq> 0"
    and c: "c = zero_Cache\<lparr>idx := Map.empty, items := replicate (nat ?sz) zero_item,
                 bits := (replicate (nat ?sz div 64) 0)[0 := - 1], handIdx := 0, handMask := - 1\<rparr>"
    by (auto simp add: New_def Init_def Let_def split: if_splits)
  have "?sz = sint (((word_of_int n :: uint64) + 63) AND NOT 63)" by simp
  have m: "64 dvd ?sz"
  proof -
    have "?sz = sint ((word_of_int n :: uint64) + 63) AND NOT 63"
      by (simp only: signed_and_eq) simp
    then show ?thesis by (simp only: and_not_63_int) simp
  qed
  have "nat z = 64 * (nat z div 64)" if "\<not> z < 0" "64 dvd z" for z :: int
  proof -
    from that(2) obtain q where q: "z = 64 * q" by (auto elim: dvdE)
    with that(1) have "0 \<le> q" by simp
    then have "nat z = 64 * nat q" using q by (simp add: nat_mult_distrib)
    then show ?thesis by simp
  qed
  from this [OF a(1) m] have l: "nat ?sz = 64 * (nat ?sz div 64)" .
  have "structural c" by (simp add: c structural_def zero_Cache_def)
  moreover have "hand_ok c"
    using a l by (auto simp add: c hand_ok_def zero_Cache_def intro!: exI [of _ 0])
  moreover have "masks_ok c" by (simp add: c masks_ok_def zero_Cache_def)
  ultimately show ?thesis by (simp add: wf_def)
qed

lemma wf_Reset: "wf c \<Longrightarrow> wf (Reset c)"
  by (auto simp add: wf_def structural_def hand_ok_def masks_ok_def Reset_def
      intro!: exI [of _ 0])

lemma wf_bits_update:
  assumes "wf c" "length bs = length (bits c)"
  shows "wf (c\<lparr>bits := bs\<rparr>)"
  using assms by (simp add: wf_def structural_def hand_ok_def masks_ok_def)

lemma wf_Get:
  assumes "wf c" "Get c k = Inr (c', r)"
  shows "wf c'"
proof (cases "idx c k")
  case None
  with assms show ?thesis by (simp add: Get_def)
next
  case (Some i)
  with assms(2) have "c' = c\<lparr>bits := (bits c)[i div 64 := bits c ! (i div 64) AND bit' (items c ! i)]\<rparr>"
    by (simp add: Get_def split: if_splits)
  with assms(1) show ?thesis by (simp add: wf_bits_update)
qed

lemma wf_Has: "wf c \<Longrightarrow> wf (fst (Has c k))"
  by (simp add: Has_def)

lemma structural_cong:
  "idx c' = idx c \<Longrightarrow> len c' = len c \<Longrightarrow> length (items c') = length (items c) \<Longrightarrow>
   (\<And>i. i < len c \<Longrightarrow> key (items c' ! i) = key (items c ! i)) \<Longrightarrow>
   structural c \<Longrightarrow> structural c'"
  by (simp add: structural_def)

lemma nth_update_bit:
  "bit' (xs[j := (xs ! j)\<lparr>key := k, value' := v\<rparr>] ! i) = bit' (xs ! i)"
  by (cases "j < length xs"; cases "i = j") (simp_all add: list_update_beyond)

lemma nth_update_value_key:
  "key (xs[j := (xs ! j)\<lparr>value' := v\<rparr>] ! i) = key (xs ! i)"
  "bit' (xs[j := (xs ! j)\<lparr>value' := v\<rparr>] ! i) = bit' (xs ! i)"
  by (cases "j < length xs"; cases "i = j"; simp add: list_update_beyond)+

lemma wf_Add_overwrite:
  assumes that: "length bs = length (bits c)" and assms: "wf c" "idx c k = Some i"
  shows "wf (c\<lparr>items := (items c)[i := (items c ! i)\<lparr>value' := v\<rparr>], bits := bs\<rparr>)"
proof -
  let ?c' = "c\<lparr>items := (items c)[i := (items c ! i)\<lparr>value' := v\<rparr>], bits := bs\<rparr>"
  from assms have "structural ?c'"
    by (intro structural_cong [of ?c' c]) (simp_all add: nth_update_value_key wf_def)
  moreover from assms that have "hand_ok ?c'" by (simp add: wf_def hand_ok_def)
  moreover from assms have "masks_ok ?c'"
    by (simp add: wf_def masks_ok_def nth_update_value_key)
  ultimately show ?thesis by (simp add: wf_def)
qed

lemma wf_Add_append:
  assumes wf: "wf c" and k: "idx c k = None" and l: "len c < length (items c)"
    and bs: "length bs = length (bits c)"
  shows "wf (c\<lparr>items := (items c)[len c := \<lparr>key = k, value' = v,
                                            bit' = NOT (push_bit (len c mod 64) 1)\<rparr>],
            bits := bs, idx := (idx c)(k \<mapsto> len c), len := len c + 1\<rparr>)"
proof -
  let ?c' = "c\<lparr>items := (items c)[len c := \<lparr>key = k, value' = v,
                                            bit' = NOT (push_bit (len c mod 64) 1)\<rparr>],
            bits := bs, idx := (idx c)(k \<mapsto> len c), len := len c + 1\<rparr>"
  from wf have st: "structural c" and ho: "hand_ok c" and mo: "masks_ok c"
    by (simp_all add: wf_def)
  from st have fin: "finite (dom (idx c))" and card: "card (dom (idx c)) = len c"
    and ent: "\<And>k' i. idx c k' = Some i \<Longrightarrow> i < len c \<and> key (items c ! i) = k'"
    by (auto simp add: structural_def)
  from k have "k \<notin> dom (idx c)" by auto
  with fin card have "card (dom ((idx c)(k \<mapsto> len c))) = len c + 1" by simp
  moreover have "i < len c + 1 \<and> key (items ?c' ! i) = k'"
    if "((idx c)(k \<mapsto> len c)) k' = Some i" for k' i
  proof (cases "k' = k")
    case True
    with that l show ?thesis by simp
  next
    case False
    with that have "idx c k' = Some i" by simp
    from ent [OF this] show ?thesis by simp
  qed
  ultimately have "structural ?c'" using fin l by (simp add: structural_def)
  moreover from ho bs have "hand_ok ?c'" by (simp add: hand_ok_def)
  moreover have "masks_ok ?c'"
    using mo l by (auto simp add: masks_ok_def nth_list_update less_Suc_eq)
  ultimately show ?thesis by (simp add: wf_def)
qed

lemma wf_evict:
  assumes st: "structural c" and mo: "masks_ok c" and ho: "hand_ok c"
    and full: "len c = length (items c)" and k: "idx c k = None" and w: "w \<noteq> 0"
    and e: "evict c w k v = Inr (c', r)"
  shows "wf c'"
proof -
  from ho have h: "handIdx c < length (bits c)" and li: "length (items c) = 64 * length (bits c)"
    by (simp_all add: hand_ok_def)
  let ?j = "handIdx c * 64 + TrailingZeros64 w"
  let ?hm = "push_bit (TrailingZeros64 w + 1) (- 1 :: uint64)"
  from evict_ok(1) [OF h li w] have j: "?j < length (items c)" .
  from evict_ok(2) [OF h li w, of k v] e have c': "c' =
      c\<lparr>idx := ((idx c)(key (items c ! ?j) := None))(k \<mapsto> ?j),
        items := (items c)[?j := (items c ! ?j)\<lparr>key := k, value' := v\<rparr>],
        bits := (bits c)[handIdx c := bits c ! handIdx c AND bit' (items c ! ?j)],
        handMask := (if ?hm = 0 then - 1 else ?hm),
        handIdx := (if ?hm = 0 then next_hand (length (bits c)) (handIdx c) else handIdx c)\<rparr>"
    by simp
  from st have fin: "finite (dom (idx c))" and card: "card (dom (idx c)) = len c"
    and ent: "\<And>k' i. idx c k' = Some i \<Longrightarrow> i < len c \<and> key (items c ! i) = k'"
    by (auto simp add: structural_def)
  let ?ko = "key (items c ! ?j)"
  from j full have "?j < len c" by simp
  with st have ko: "idx c ?ko = Some ?j" by (rule slot_indexed)
  from k have kn: "k \<notin> dom (idx c)" by auto
  from ko have kd: "?ko \<in> dom (idx c)" by auto
  have d: "dom (idx c') = insert k (dom (idx c) - {?ko})" by (auto simp add: c')
  have "card (dom (idx c')) = len c"
  proof -
    from fin kd have "0 < card (dom (idx c))" by (auto simp add: card_gt_0_iff)
    moreover from kd have "card (dom (idx c) - {?ko}) = card (dom (idx c)) - 1"
      by (rule card_Diff_singleton)
    moreover from fin kn have "card (insert k (dom (idx c) - {?ko})) =
      Suc (card (dom (idx c) - {?ko}))" by (intro card_insert_disjoint) auto
    ultimately show ?thesis using card by (simp only: d)
  qed
  moreover have "i < len c \<and> key (items c' ! i) = k'" if "idx c' k' = Some i" for k' i
  proof (cases "k' = k")
    case True
    with that j full show ?thesis by (simp add: c')
  next
    case False
    with that have ne: "k' \<noteq> ?ko" and i: "idx c k' = Some i"
      by (auto simp add: c' split: if_splits)
    from ent [OF i] have "i < len c" "key (items c ! i) = k'" by simp_all
    with ne have "i \<noteq> ?j" by auto
    with \<open>i < len c\<close> \<open>key (items c ! i) = k'\<close> show ?thesis by (simp add: c')
  qed
  moreover have "finite (dom (idx c'))" using fin by (simp add: d)
  ultimately have "structural c'" using full by (simp add: structural_def) (simp add: c')
  moreover have "hand_ok c'"
  proof -
    have "\<exists>s<64. (if ?hm = 0 then - 1 else ?hm) = push_bit s (- 1)"
    proof (cases "?hm = 0")
      case True
      then show ?thesis by (intro exI [of _ 0]) simp
    next
      case False
      then have "TrailingZeros64 w + 1 < 64" by (simp add: not_mask_eq_0_iff)
      with False show ?thesis by (intro exI [of _ "TrailingZeros64 w + 1"]) simp
    qed
    then show ?thesis using h li by (simp add: hand_ok_def c' next_hand_less)
  qed
  moreover have "masks_ok c'"
    using mo by (simp add: masks_ok_def c' nth_update_bit)
  ultimately show ?thesis by (simp add: wf_def)
qed

lemma wf_locate:
  assumes "hand_ok c" "locate c = Inr (c1, w)"
  shows "hand_ok c1 \<and> w \<noteq> 0 \<and> idx c1 = idx c \<and> items c1 = items c \<and> len c1 = len c"
proof -
  from assms(1) have h: "handIdx c < length (bits c)" and m: "handMask c \<noteq> 0"
    and li: "length (items c) = 64 * length (bits c)"
    by (simp_all add: hand_ok_def hand_ok_mask)
  show ?thesis
  proof (cases "bits c ! handIdx c AND handMask c = 0")
    case False
    with h assms(2) have "c1 = c" "w = bits c ! handIdx c AND handMask c"
      by (auto simp add: locate_def Let_def)
    with False assms(1) show ?thesis by simp
  next
    case True
    let ?bs1 = "(bits c)[handIdx c := bits c ! handIdx c OR handMask c]"
    have "next_hand (length (bits c)) (handIdx c) < length ?bs1"
      using h by (simp add: next_hand_less)
    from sweep_ok [OF this] obtain bs' h' where
      "sweep ?bs1 (next_hand (length (bits c)) (handIdx c)) = Inr (bs', h', bs' ! h')"
      "length bs' = length (bits c)" "h' < length (bits c)" "bs' ! h' \<noteq> 0" by auto
    with True h assms(2) li show ?thesis
      by (auto simp add: locate_def hand_ok_def intro!: exI [of _ 0])
  qed
qed

lemma wf_Add:
  assumes wf: "wf c" and a: "Add c k v = Inr (c', r)"
  shows "wf c'"
proof (cases "idx c k")
  case (Some i)
  from Add_overwrite [OF wf Some, of v] a wf_Add_overwrite [OF _ wf Some]
  show ?thesis by auto
next
  case None
  show ?thesis
  proof (cases "len c < length (items c)")
    case True
    from Add_append [OF wf None True, of v] a wf_Add_append [OF wf None True]
    show ?thesis by auto
  next
    case False
    from wf have st: "structural c" and ho: "hand_ok c" and mo: "masks_ok c"
      by (simp_all add: wf_def)
    from st False have full: "len c = length (items c)" by (simp add: structural_def)
    from ho have "handIdx c < length (bits c)" "handMask c \<noteq> 0"
      by (simp_all add: hand_ok_def hand_ok_mask)
    from locate_ok [OF this] obtain c1 w where loc: "locate c = Inr (c1, w)" by blast
    from wf_locate [OF ho loc] have ho1: "hand_ok c1" and w: "w \<noteq> 0"
      and f: "idx c1 = idx c" "items c1 = items c" "len c1 = len c" by simp_all
    from st f have st1: "structural c1" by (simp add: structural_def)
    from mo f have mo1: "masks_ok c1" by (simp add: masks_ok_def)
    from Add_full [OF None False loc, of v] a have "evict c1 w k v = Inr (c', r)" by simp
    from wf_evict [OF st1 mo1 ho1 _ _ w this] full None f show ?thesis by simp
  qed
qed

lemma Delete_absent: "idx c k = None \<Longrightarrow> Delete c k = Inr (c, 0, False)"
  by (simp add: Delete_def)

lemma Delete_last:
  assumes "wf c" "idx c k = Some i" "i = len c - 1"
  shows "Delete c k =
    Inr (c\<lparr>idx := (idx c)(k := None), items := (items c)[i := zero_item], len := i\<rparr>,
         value' (items c ! i), True)"
proof -
  from wf_index_range [OF assms(1,2)] have "i < len c" "i < length (items c)" by simp_all
  with assms show ?thesis by (simp add: Delete_def Let_def)
qed

lemma Delete_moves_last:
  assumes "wf c" "idx c k = Some i" "i \<noteq> len c - 1"
  shows "Delete c k =
    Inr (c\<lparr>idx := ((idx c)(k := None))(key (items c ! (len c - 1)) \<mapsto> i),
           items := (items c)[i := (items c ! i)\<lparr>key := key (items c ! (len c - 1)),
                                                  value' := value' (items c ! (len c - 1))\<rparr>,
                              len c - 1 := zero_item],
           bits := (if bits c ! ((len c - 1) div 64) = 0
                    then (bits c)[i div 64 := bits c ! (i div 64) AND NOT (push_bit (i mod 64) 1)]
                    else (bits c)[i div 64 := bits c ! (i div 64) OR push_bit (i mod 64) 1]),
           len := len c - 1\<rparr>,
         value' (items c ! i), True)"
proof -
  let ?n = "len c - 1"
  from wf_index_range [OF assms(1,2)] have i: "i < len c" "i < length (items c)"
    "i div 64 < length (bits c)" "bit' (items c ! i) = NOT (push_bit (i mod 64) 1)" by simp_all
  from assms(1) have "len c \<le> length (items c)" "length (items c) = 64 * length (bits c)"
    by (simp_all add: wf_def structural_def hand_ok_def)
  with i have n: "0 < len c" "?n < length (items c)" "?n div 64 < length (bits c)" by simp_all
  from assms(3) have ne: "?n \<noteq> i" by simp
  show ?thesis
    unfolding Delete_def Let_def using assms(2) i n ne
    by (simp add: zero_item_def)
qed

lemma Delete_moved_bit:
  assumes "wf c" "idx c k = Some i" "i \<noteq> len c - 1" "Delete c k = Inr (c', r)"
  shows "ejectable c' i \<longleftrightarrow> bits c ! ((len c - 1) div 64) \<noteq> 0"
proof -
  from wf_index_range [OF assms(1,2)] have i: "i div 64 < length (bits c)" by simp
  have b: "i mod 64 < 64" by simp
  from Delete_moves_last [OF assms(1-3)] assms(4) i b show ?thesis
    by (auto simp add: ejectable_iff bit_simps)
qed

lemma wf_Delete:
  assumes wf: "wf c" and d: "Delete c k = Inr (c', r)"
  shows "wf c'"
proof (cases "idx c k")
  case None
  with d wf show ?thesis by (simp add: Delete_absent)
next
  case (Some i)
  from wf have st: "structural c" and ho: "hand_ok c" and mo: "masks_ok c"
    by (simp_all add: wf_def)
  from st have fin: "finite (dom (idx c))" and card: "card (dom (idx c)) = len c"
    and ent: "\<And>k' j. idx c k' = Some j \<Longrightarrow> j < len c \<and> key (items c ! j) = k'"
    and ll: "len c \<le> length (items c)"
    by (auto simp add: structural_def)
  from ent [OF Some] have i: "i < len c" "key (items c ! i) = k" by simp_all
  from Some have kd: "k \<in> dom (idx c)" by auto
  then have card': "card (dom (idx c) - {k}) = len c - 1"
    using card by (simp add: card_Diff_singleton)
  let ?n = "len c - 1"
  show ?thesis
  proof (cases "i = ?n")
    case True
    from Delete_last [OF wf Some True] d have c': "c' =
      c\<lparr>idx := (idx c)(k := None), items := (items c)[i := zero_item], len := i\<rparr>" by simp
    have "j < i \<and> key (items c' ! j) = k'" if "idx c' k' = Some j" for k' j
    proof -
      from that have "k' \<noteq> k" "idx c k' = Some j" by (auto simp add: c' split: if_splits)
      from ent [OF this(2)] have j: "j < len c" "key (items c ! j) = k'" by simp_all
      with \<open>k' \<noteq> k\<close> i have "j \<noteq> i" by auto
      with j True show ?thesis by (simp add: c')
    qed
    moreover have "dom (idx c') = dom (idx c) - {k}" by (auto simp add: c')
    ultimately have "structural c'"
      using fin card' True ll i by (simp add: structural_def) (simp add: c')
    moreover from ho have "hand_ok c'" by (simp add: hand_ok_def c')
    moreover from mo i have "masks_ok c'" by (simp add: masks_ok_def c')
    ultimately show ?thesis by (simp add: wf_def)
  next
    case False
    let ?kl = "key (items c ! ?n)"
    from i have n: "?n < len c" by simp
    with st have kl: "idx c ?kl = Some ?n" by (rule slot_indexed)
    with Some False have klk: "?kl \<noteq> k" by auto
    from i False have il: "i < ?n" by simp
    from Delete_moves_last [OF wf Some False] d obtain bs where
      c': "c' = c\<lparr>idx := ((idx c)(k := None))(?kl \<mapsto> i),
                   items := (items c)[i := (items c ! i)\<lparr>key := ?kl,
                                                          value' := value' (items c ! ?n)\<rparr>,
                                      ?n := zero_item],
                   bits := bs, len := ?n\<rparr>"
      and bs: "length bs = length (bits c)"
      by (cases "bits c ! (?n div 64) = 0") auto
    have "j < ?n \<and> key (items c' ! j) = k'" if "idx c' k' = Some j" for k' j
    proof (cases "k' = ?kl")
      case True
      with that il ll n show ?thesis by (simp add: c')
    next
      case kf: False
      with that have "k' \<noteq> k" "idx c k' = Some j" by (auto simp add: c' split: if_splits)
      from ent [OF this(2)] have j: "j < len c" "key (items c ! j) = k'" by simp_all
      with \<open>k' \<noteq> k\<close> i have "j \<noteq> i" by auto
      moreover from j kf have "j \<noteq> ?n" by auto
      ultimately show ?thesis using j by (simp add: c')
    qed
    moreover have "dom (idx c') = dom (idx c) - {k}" using kl klk by (auto simp add: c')
    ultimately have "structural c'"
      using fin card' ll by (simp add: structural_def) (simp add: c')
    moreover from ho bs have "hand_ok c'" by (simp add: hand_ok_def c')
    moreover have "masks_ok c'"
    proof -
      have "bit' (items c' ! j) = NOT (push_bit (j mod 64) 1)" if "j < ?n" for j
      proof -
        from that mo have m: "bit' (items c ! j) = NOT (push_bit (j mod 64) 1)"
          by (simp add: masks_ok_def)
        from that ll have "j < length (items c)" by simp
        with that m show ?thesis by (cases "j = i") (simp_all add: c')
      qed
      then show ?thesis by (simp add: masks_ok_def c')
    qed
    ultimately show ?thesis by (simp add: wf_def)
  qed
qed

lemma Delete_total:
  assumes "wf c"
  shows "\<exists>c' v ok. Delete c k = Inr (c', v, ok)"
proof (cases "idx c k")
  case None
  then show ?thesis by (auto simp add: Delete_absent)
next
  case (Some i)
  then show ?thesis
    using Delete_last [OF assms Some] Delete_moves_last [OF assms Some]
    by (cases "i = len c - 1") auto
qed

section \<open>Get and Reset\<close>

text \<open>\<open>Get\<close> on a key that is present clears the ejectable bit of its slot, which \<open>Has\<close>
  leaves alone. \<open>Reset\<close> writes every field but the bitmap.\<close>

lemma Get_hit:
  assumes "wf c" "idx c k = Some i"
  shows "Get c k =
     Inr (c\<lparr>bits := (bits c)[i div 64 := bits c ! (i div 64) AND NOT (push_bit (i mod 64) 1)]\<rparr>,
          value' (items c ! i), True)"
  using wf_index_range [OF assms] assms(2) by (simp add: Get_def)

lemma Get_clears_bit:
  assumes "wf c" "idx c k = Some i" "Get c k = Inr (c', r)"
  shows "\<not> ejectable c' i"
proof -
  from wf_index_range(3) [OF assms(1,2)] have "i div 64 < length (bits c)" .
  moreover from Get_hit [OF assms(1,2)] assms(3) have "bits c' =
    (bits c)[i div 64 := bits c ! (i div 64) AND NOT (push_bit (i mod 64) 1)]" by auto
  ultimately show ?thesis by (intro cleared_not_ejectable)
qed

lemma Get_miss: "idx c k = None \<Longrightarrow> Get c k = Inr (c, 0, False)"
  by (simp add: Get_def)

lemma Reset_fields:
  "idx (Reset c) = Map.empty" "len (Reset c) = 0" "handIdx (Reset c) = 0"
  "handMask (Reset c) = - 1" "items (Reset c) = replicate (length (items c)) zero_item"
  "bits (Reset c) = bits c"
  by (simp_all add: Reset_def map_replicate_const)

section \<open>The test states are reached through the public operations\<close>

lemma New_64: "New (64 + lim) 64 = Inr fresh64"
  by (simp add: New_def Init_def zero_Cache_def fresh64_def)

lemma Add_first: "Add fresh64 1 10 = Inr (one_entry, 0, False)"
  by (simp add: Add_def fresh64_def one_entry_def)

lemma Add_second: "Add one_entry 2 20 = Inr (two_entries, 0, False)"
  by (simp add: Add_def one_entry_def two_entries_def)

lemma Add_third: "Add two_entries 3 30 = Inr (three_entries, 0, False)"
  by (simp add: Add_def two_entries_def three_entries_def)

lemma wf_full_cache:
  assumes "h < length bs" "s < 64"
  shows "wf (full_cache bs h (push_bit s (- 1)))"
proof -
  have "dom (\<lambda>k. if k < 64 * length bs then Some k else None) = {..<64 * length bs}"
    by (auto simp add: dom_def)
  then have "structural (full_cache bs h (push_bit s (- 1)))"
    by (simp add: structural_def full_cache_def)
  moreover have "hand_ok (full_cache bs h (push_bit s (- 1)))"
    using assms by (auto simp add: hand_ok_def full_cache_def)
  moreover have "masks_ok (full_cache bs h (push_bit s (- 1)))"
    by (simp add: masks_ok_def full_cache_def)
  ultimately show ?thesis by (simp add: wf_def)
qed

lemma wf_three_entries: "wf three_entries"
proof -
  have "dom (idx three_entries) = {1, 2, 3}" by (auto simp add: three_entries_def)
  then have "structural three_entries"
    by (auto simp add: structural_def three_entries_def)
  moreover have "hand_ok three_entries"
    by (auto simp add: hand_ok_def three_entries_def intro!: exI [of _ 0])
  moreover have "masks_ok three_entries"
  proof -
    have "bit' (items three_entries ! i) = NOT (push_bit (i mod 64) 1)" if "i < 3" for i
    proof -
      from that consider "i = 0" | "i = 1" | "i = 2" by linarith
      then show ?thesis by cases (simp_all add: three_entries_def)
    qed
    moreover have "len three_entries = 3" by (simp add: three_entries_def)
    ultimately show ?thesis by (simp add: masks_ok_def)
  qed
  ultimately show ?thesis by (simp add: wf_def)
qed

lemma wf_full64_slot5: "wf full64_slot5"
  using wf_full_cache [of 0 "[32]" 0] by (simp add: full64_slot5_def)

lemma wf_second_word_slot5: "wf second_word_slot5"
  using wf_full_cache [of 0 "[0, 32]" 3] by (simp add: second_word_slot5_def)

lemma New_64_partial_fill: "New (64 + lim) 64 = Inr (partial_fill 0)"
  by (simp add: New_def Init_def zero_Cache_def partial_fill_def map_replicate_const)

lemma clear_lowest_of_shifted_ones:
  "m < 64 \<Longrightarrow> push_bit m (- 1 :: uint64) AND NOT (push_bit m 1) = push_bit (Suc m) (- 1)"
  by (rule bit_eqI) (auto simp add: bit_simps)

lemma Add_partial_fill:
  assumes "m < 64"
  shows "Add (partial_fill m) m (100 + m) = Inr (partial_fill (Suc m), 0, False)"
proof -
  let ?c = "partial_fill m"
  let ?c' = "?c\<lparr>items := (items ?c)[len ?c := \<lparr>key = m, value' = 100 + m,
                                                  bit' = NOT (push_bit (len ?c mod 64) 1)\<rparr>],
               bits := (bits ?c)[len ?c div 64 :=
                         bits ?c ! (len ?c div 64) AND NOT (push_bit (len ?c mod 64) 1)],
               idx := (idx ?c)(m \<mapsto> len ?c),
               len := len ?c + 1\<rparr>"
  have a: "idx ?c m = None" "len ?c = m" "length (items ?c) = 64" "length (bits ?c) = 1"
    by (simp_all add: partial_fill_def)
  with assms have "Add ?c m (100 + m) = Inr (?c', 0, False)"
    by (simp add: Add_def Let_def)
  moreover have "?c' = partial_fill (Suc m)"
  proof (rule Cache.equality)
    show "idx ?c' = idx (partial_fill (Suc m))"
      by (auto simp add: partial_fill_def fun_eq_iff)
    show "items ?c' = items (partial_fill (Suc m))"
      using assms
      by (intro nth_equalityI) (auto simp add: partial_fill_def nth_list_update less_Suc_eq)
    have "push_bit m (- 1 :: uint64) AND NOT (push_bit (m mod 64) 1) = push_bit (Suc m) (- 1)"
      using assms clear_lowest_of_shifted_ones [of m] by simp
    moreover from assms have "m div 64 = 0" by simp
    ultimately show "bits ?c' = bits (partial_fill (Suc m))"
      by (simp add: partial_fill_def del: push_bit_minus_one_eq_not_mask push_bit_Suc)
  qed (simp_all add: partial_fill_def)
  ultimately show ?thesis by simp
qed

lemma full64_slot5_reached:
  "full64_slot5 = (partial_fill 64)\<lparr>bits := [bits (partial_fill 64) ! 0 OR push_bit 5 1]\<rparr>"
proof -
  have "NOT (mask 64 :: uint64) = 0" by (simp add: not_mask_eq_0_iff)
  then show ?thesis by (simp add: full64_slot5_def full_cache_def partial_fill_def)
qed

section \<open>Init and New\<close>

lemma Init_in_range:
  assumes "- (2 ^ 63) \<le> n + 63" "n + 63 < 2 ^ 63"
  shows "Init lim c n =
    (if n + 63 < 0 \<or> int lim < 64 * ((n + 63) div 64) then Inl LenOutOfRange
     else if n + 63 < 64 then Inl IndexOutOfRange
     else Inr (c\<lparr>idx := Map.empty,
                 items := replicate (nat (64 * ((n + 63) div 64))) zero_item,
                 bits := (replicate (nat ((n + 63) div 64)) 0)[0 := - 1],
                 handIdx := 0, handMask := - 1\<rparr>))"
proof -
  have sz: "sint (((word_of_int n :: uint64) + 63) AND NOT 63) = 64 * ((n + 63) div 64)"
    using assms by (rule round_up_sint)
  have d: "nat (64 * ((n + 63) div 64)) div 64 = nat ((n + 63) div 64)"
    by (simp add: nat_mult_distrib)
  have a: "64 * ((n + 63) div 64) < 0 \<longleftrightarrow> n + 63 < 0" by auto
  have b: "nat ((n + 63) div 64) = 0 \<longleftrightarrow> n + 63 < 64" by auto
  show ?thesis unfolding Init_def sz Let_def d a b by simp
qed

lemma Init_overflow:
  assumes "2 ^ 63 - 64 < n" "n < 2 ^ 63"
  shows "Init lim c n = Inl LenOutOfRange"
proof -
  have w: "(word_of_int n :: uint64) = word_of_int (n - 2 ^ 64)"
    by (simp add: word_of_int_eq_iff take_bit_eq_mod)
  have "sint (((word_of_int (n - 2 ^ 64) :: uint64) + 63) AND NOT 63)
        = 64 * ((n - 2 ^ 64 + 63) div 64)"
    using assms by (intro round_up_sint) simp_all
  moreover have "64 * ((n - 2 ^ 64 + 63) div 64) < 0" using assms by simp
  ultimately show ?thesis unfolding Init_def w Let_def by simp
qed

text \<open>
  Claim C4, as the code has it. Let \<open>lim\<close> be the largest length for which \<open>make\<close> of the
  slot table returns. For \<open>1 \<le> n \<le> 2^63 - 64\<close> with \<open>n\<close> rounded up to the next multiple of
  64 at most \<open>lim\<close>, \<open>Init\<close> and \<open>New\<close> succeed and the capacity is that rounded size, hence
  at least 64. No minimum is enforced: for \<open>n \<le> 0\<close> the rounded size is zero or negative,
  for \<open>n > 2^63 - 64\<close> the addition wraps to a negative size, and a rounded size above
  \<open>lim\<close> is more than \<open>make\<close> allocates; in all three cases the call panics.
\<close>

theorem Init_capacity:
  fixes c :: "('k::zero, 'v::zero) Cache"
  shows "(0 < n \<and> n \<le> 2 ^ 63 - 64 \<and> 64 * ((n + 63) div 64) \<le> int lim \<longrightarrow>
           (\<exists>c'. Init lim c n = Inr c' \<and> int (Cap c') = 64 * ((n + 63) div 64) \<and>
                 64 \<le> Cap c' \<and>
                 (\<exists>c''. (New lim n :: error + ('k, 'v) Cache) = Inr c'' \<and> Cap c'' = Cap c'))) \<and>
         (- (2 ^ 63) \<le> n \<and> n < 2 ^ 63 \<and>
          (n \<le> 0 \<or> 2 ^ 63 - 64 < n \<or> int lim < 64 * ((n + 63) div 64)) \<longrightarrow>
           (\<exists>e. Init lim c n = Inl e) \<and>
           (\<exists>e. (New lim n :: error + ('k, 'v) Cache) = Inl e))"
proof (rule conjI; rule impI)
  assume n: "0 < n \<and> n \<le> 2 ^ 63 - 64 \<and> 64 * ((n + 63) div 64) \<le> int lim"
  then have r: "- (2 ^ 63) \<le> n + 63" "n + 63 < 2 ^ 63" by simp_all
  from n have "64 div 64 \<le> (n + 63) div 64" by (intro zdiv_mono1) simp_all
  then have q: "1 \<le> (n + 63) div 64" by simp
  then have "64 \<le> nat (64 * ((n + 63) div 64))" by simp
  with n q show "\<exists>c'. Init lim c n = Inr c' \<and> int (Cap c') = 64 * ((n + 63) div 64) \<and>
                 64 \<le> Cap c' \<and>
                 (\<exists>c''. (New lim n :: error + ('k, 'v) Cache) = Inr c'' \<and> Cap c'' = Cap c')"
    by (simp add: Init_in_range [OF r] New_def Cap_def)
next
  assume n: "- (2 ^ 63) \<le> n \<and> n < 2 ^ 63 \<and>
          (n \<le> 0 \<or> 2 ^ 63 - 64 < n \<or> int lim < 64 * ((n + 63) div 64))"
  have p: "\<exists>e. Init lim d n = Inl e" for d :: "('k, 'v) Cache"
  proof (cases "2 ^ 63 - 64 < n")
    case True
    with n show ?thesis by (simp add: Init_overflow)
  next
    case False
    with n have r: "- (2 ^ 63) \<le> n + 63" "n + 63 < 2 ^ 63" by simp_all
    from n False have "n + 63 < 64 \<or> int lim < 64 * ((n + 63) div 64)" by auto
    then show ?thesis by (auto simp add: Init_in_range [OF r])
  qed
  from p [of c] p [of zero_Cache]
  show "(\<exists>e. Init lim c n = Inl e) \<and> (\<exists>e. (New lim n :: error + ('k, 'v) Cache) = Inl e)"
    by (simp add: New_def)
qed

text \<open>The witness takes for \<open>lim\<close> the limit of the 64-bit runtime for items of 24 bytes,
  \<open>2^48 div 24\<close>: capacity 100 gives 128 slots, capacity 0 and capacity \<open>2^44\<close> panic.\<close>

theorem Init_capacity_witness:
  "(0::int) < 100 \<and> (100::int) \<le> 2 ^ 63 - 64 \<and>
   64 * ((100 + 63) div 64) \<le> int (2 ^ 48 div 24) \<and>
   (\<exists>c'. Init (2 ^ 48 div 24) one_entry 100 = Inr c' \<and> Cap c' = 128) \<and>
   (\<exists>e. Init (2 ^ 48 div 24) one_entry 0 = Inl e) \<and>
   int (2 ^ 48 div 24) < 64 * ((2 ^ 44 + 63) div 64) \<and>
   (\<exists>e. Init (2 ^ 48 div 24) one_entry (2 ^ 44) = Inl e)"
proof -
  have a: "(0::int) < 100 \<and> (100::int) \<le> 2 ^ 63 - 64 \<and>
           64 * ((100 + 63) div 64) \<le> int (2 ^ 48 div 24)" by simp
  have b: "int (2 ^ 48 div 24) < 64 * ((2 ^ 44 + 63) div 64)" by simp
  from Init_capacity [of 100 "2 ^ 48 div 24" one_entry] a
  have 1: "\<exists>c'. Init (2 ^ 48 div 24) one_entry 100 = Inr c' \<and> Cap c' = 128" by auto
  from Init_capacity [of 0 "2 ^ 48 div 24" one_entry]
  have 2: "\<exists>e. Init (2 ^ 48 div 24) one_entry 0 = Inl e" by simp
  from Init_capacity [of "2 ^ 44" "2 ^ 48 div 24" one_entry] b
  have 3: "\<exists>e. Init (2 ^ 48 div 24) one_entry (2 ^ 44) = Inl e" by simp
  from a b 1 2 3 show ?thesis by simp
qed

text \<open>
  Claim C4, as stated, fails at capacity 0 and at capacity -64, here under the limit of
  the 64-bit runtime for items of 24 bytes (the limit plays no part): \<open>New\<close> panics, on
  \<open>c.bits[0]\<close> and on \<open>make\<close> with a negative length.
\<close>

theorem New_nonpositive_capacity_panics:
  "(New (2 ^ 48 div 24) 0 :: error + (nat, nat) Cache) = Inl IndexOutOfRange \<and>
   (New (2 ^ 48 div 24) (- 64) :: error + (nat, nat) Cache) = Inl LenOutOfRange"
  by (simp add: New_def Init_def)

text \<open>
  Claim C7 at \<open>Init\<close>. \<open>Init\<close> does not assign \<open>c.len\<close>: called on the cache that holds
  one entry it empties the index map and leaves \<open>Len\<close> at 1, so the index map no longer
  has \<open>Len\<close> entries. This holds under every allocation limit \<open>64 + lim\<close> that lets
  \<open>Init 64\<close> return.
\<close>

theorem Init_keeps_len:
  "dom (idx one_entry) = {1} \<and> Len one_entry = 1 \<and>
   (case Init (64 + lim) one_entry 64 of Inl e \<Rightarrow> False
    | Inr c' \<Rightarrow> dom (idx c') = {} \<and> Len c' = 1)"
  by (simp add: Init_def one_entry_def Len_def)

section \<open>Reset\<close>

text \<open>
  Claim C2 at the cache that holds one entry. \<open>Reset\<close> does not touch the bitmap: word 0
  keeps the cleared bit of slot 0, where the state after \<open>Init\<close> has all ones. This holds
  under every allocation limit \<open>64 + lim\<close> that lets \<open>New 64\<close> return.
\<close>

theorem Reset_keeps_bitmap:
  "New (64 + lim) 64 = Inr fresh64 \<and> Add fresh64 1 10 = Inr (one_entry, 0, False) \<and>
   bits fresh64 = [- 1] \<and> bits (Reset one_entry) = [- 2] \<and> Reset one_entry \<noteq> fresh64"
  by (simp add: New_def Init_def zero_Cache_def Add_def Reset_def one_entry_def fresh64_def)

section \<open>Delete\<close>

text \<open>
  Claim C1 at the cache that holds the keys 1, 2, 3 in the slots 0, 1, 2, none of them
  ejectable. \<open>Delete 1\<close> moves key 3 from slot 2 to slot 0 and sets the bit of slot 0: the
  moved entry becomes ejectable although its own bit was clear, because line 182 reads
  the mask of the slot that line 181 has just zeroed and so tests the whole word.
\<close>

theorem Delete_moved_bit_from_whole_word:
  "idx three_entries 3 = Some 2 \<and> \<not> ejectable three_entries 2 \<and>
   (case Delete three_entries 1 of Inl e \<Rightarrow> False
    | Inr (c', v, ok) \<Rightarrow> v = 10 \<and> ok \<and> idx c' 3 = Some 0 \<and> ejectable c' 0)"
  by (simp add: Delete_def three_entries_def ejectable_def zero_item_def)

section \<open>Add\<close>



text \<open>
  Claim C8. On a cache that satisfies the invariant, \<open>Add k v\<close> returns without panic and
  \<open>Get k\<close> on the cache it leaves returns \<open>(v, true)\<close>, whichever of its three paths
  \<open>Add\<close> took.
\<close>

theorem Add_then_Get:
  assumes "wf c"
  shows "\<exists>c' old ok c''. Add c k v = Inr (c', old, ok) \<and> Get c' k = Inr (c'', v, True)"
proof (cases "idx c k")
  case (Some i)
  from wf_index_range [OF assms Some] have "i < length (items c)" "i div 64 < length (bits c)"
    by simp_all
  then show ?thesis using Add_overwrite [OF assms Some, of v] Some by (auto simp add: Get_def)
next
  case None
  show ?thesis
  proof (cases "len c < length (items c)")
    case True
    with assms have "len c div 64 < length (bits c)" by (auto simp add: wf_def hand_ok_def)
    with True show ?thesis using Add_append [OF assms None True, of v] by (auto simp add: Get_def)
  next
    case False
    from Add_evict_ex [OF assms None False, of v] obtain c' j where
      a: "Add c k v = Inr (c', value' (items c ! j), True)" and j: "j < length (items c)"
      and x: "idx c' = ((idx c)(key (items c ! j) := None))(k \<mapsto> j)"
      and it: "items c' = (items c)[j := (items c ! j)\<lparr>key := k, value' := v\<rparr>]"
      and lb: "length (bits c') = length (bits c)" by blast
    from assms have "length (items c) = 64 * length (bits c)" by (simp add: wf_def hand_ok_def)
    with j have "j div 64 < length (bits c)" by simp
    with j x it lb have "\<exists>c''. Get c' k = Inr (c'', v, True)" by (simp add: Get_def)
    with a show ?thesis by blast
  qed
qed

theorem Add_then_Get_witness:
  "wf three_entries \<and>
   (\<exists>c' old ok c''. Add three_entries 9 90 = Inr (c', old, ok) \<and> Get c' 9 = Inr (c'', 90, True))"
  using wf_three_entries Add_then_Get [OF wf_three_entries, of 9 90] by simp

section \<open>The eviction sweep\<close>

text \<open>
  Claim C5. On a full cache that satisfies the invariant, \<open>Add\<close> of an absent key evicts
  slot \<open>j\<close>: it returns the value of \<open>j\<close>, removes the key of \<open>j\<close> from the index map
  (\<open>Has\<close> on it is false afterwards) and indexes the new key at \<open>j\<close>. If the word under
  the hand has a set bit inside the hand mask, \<open>j\<close> is \<open>handIdx * 64\<close> plus the lowest such
  bit. Otherwise the word under the hand is ORed with the hand mask, and \<open>j\<close> is
  \<open>64 * w\<close> plus the lowest set bit of word \<open>w\<close>, the first non-zero word in the order
  \<open>handIdx + 1, handIdx + 2, ...\<close> with wrap-around (every word before it is zero).
  The witness is the cache of capacity 64 with only slot 5 ejectable.
\<close>

theorem Add_evicts_clock_victim:
  assumes wf: "wf c" and full: "Len c = Cap c" and k: "idx c k = None"
  shows "\<exists>c' j. Add c k v = Inr (c', value' (items c ! j), True) \<and> j < Cap c \<and>
           idx c (key (items c ! j)) = Some j \<and>
           idx c' = ((idx c)(key (items c ! j) := None))(k \<mapsto> j) \<and>
           Has c' (key (items c ! j)) = (c', False) \<and> Has c' k = (c', True) \<and>
           Len c' = Cap c \<and>
           (bits c ! handIdx c AND handMask c \<noteq> 0 \<longrightarrow>
              j = handIdx c * 64 + TrailingZeros64 (bits c ! handIdx c AND handMask c)) \<and>
           (bits c ! handIdx c AND handMask c = 0 \<longrightarrow>
              (\<forall>d<length (bits c).
                 (\<forall>t<d. (bits c)[handIdx c := bits c ! handIdx c OR handMask c]
                           ! ((handIdx c + 1 + t) mod length (bits c)) = 0) \<and>
                 (bits c)[handIdx c := bits c ! handIdx c OR handMask c]
                           ! ((handIdx c + 1 + d) mod length (bits c)) \<noteq> 0 \<longrightarrow>
                 j = ((handIdx c + 1 + d) mod length (bits c)) * 64 +
                     TrailingZeros64 ((bits c)[handIdx c := bits c ! handIdx c OR handMask c]
                                        ! ((handIdx c + 1 + d) mod length (bits c)))))"
proof -
  let ?n = "length (bits c)"
  let ?bs1 = "(bits c)[handIdx c := bits c ! handIdx c OR handMask c]"
  from wf have h: "handIdx c < ?n" and m: "handMask c \<noteq> 0"
    by (simp_all add: wf_def hand_ok_def hand_ok_mask)
  from full have nf: "\<not> len c < length (items c)" by (simp add: Len_def Cap_def)
  from locate_ok [OF h m] obtain c1 w where
    loc: "locate c = Inr (c1, w)" and w: "w \<noteq> 0" and l1: "length (bits c1) = ?n"
    and h1: "handIdx c1 < ?n" and x1: "idx c1 = idx c" and i1: "items c1 = items c"
    and n1: "len c1 = len c"
    by blast
  let ?j = "handIdx c1 * 64 + TrailingZeros64 w"
  from h1 l1 have h1': "handIdx c1 < length (bits c1)" by simp
  from Add_evict [OF wf k nf loc w h1' l1 i1 x1 n1 refl, of v] obtain c' where
    a: "Add c k v = Inr (c', value' (items c ! ?j), True)" and r: "?j < length (items c)"
    and s: "idx c (key (items c ! ?j)) = Some ?j" and ne: "key (items c ! ?j) \<noteq> k"
    and x: "idx c' = ((idx c)(key (items c ! ?j) := None))(k \<mapsto> ?j)"
    and l: "len c' = len c"
    by blast
  have hit: "?j = handIdx c * 64 + TrailingZeros64 (bits c ! handIdx c AND handMask c)"
    if "bits c ! handIdx c AND handMask c \<noteq> 0"
    using locate_hit [OF h that] loc by simp
  have swept: "?j = ((handIdx c + 1 + d) mod ?n) * 64 +
                  TrailingZeros64 (?bs1 ! ((handIdx c + 1 + d) mod ?n))"
    if "bits c ! handIdx c AND handMask c = 0" "d < ?n"
      "\<forall>t<d. ?bs1 ! ((handIdx c + 1 + t) mod ?n) = 0"
      "?bs1 ! ((handIdx c + 1 + d) mod ?n) \<noteq> 0" for d
    using locate_sweep [OF h that] loc by auto
  show ?thesis
    apply (rule exI [of _ c'])
    apply (rule exI [of _ ?j])
    using a r s ne x l full hit swept
    by (simp add: Has_def Len_def Cap_def)
qed

theorem Add_evicts_clock_victim_witness:
  "wf full64_slot5 \<and> Len full64_slot5 = Cap full64_slot5 \<and> idx full64_slot5 64 = None \<and>
   Cap full64_slot5 = 64 \<and> bits full64_slot5 = [push_bit 5 1] \<and>
   idx full64_slot5 5 = Some 5 \<and> value' (items full64_slot5 ! 5) = 105 \<and>
   (\<exists>c'. Add full64_slot5 64 640 = Inr (c', 105, True) \<and> idx c' 64 = Some 5 \<and>
      Has c' 5 = (c', False) \<and> Len c' = 64)"
proof -
  have a: "Len full64_slot5 = Cap full64_slot5" "idx full64_slot5 64 = None"
    "Cap full64_slot5 = 64" "bits full64_slot5 = [push_bit 5 1]" "idx full64_slot5 5 = Some 5"
    "value' (items full64_slot5 ! 5) = 105" "key (items full64_slot5 ! 5) = 5"
    "bits full64_slot5 ! handIdx full64_slot5 AND handMask full64_slot5 = 32"
    "handIdx full64_slot5 = 0"
    by (simp_all add: full64_slot5_def full_cache_def Len_def Cap_def)
  from Add_evicts_clock_victim [OF wf_full64_slot5 a(1) a(2), of 640] obtain c' j where
    "Add full64_slot5 64 640 = Inr (c', value' (items full64_slot5 ! j), True)"
    "idx c' = ((idx full64_slot5)(key (items full64_slot5 ! j) := None))(64 \<mapsto> j)"
    "Has c' (key (items full64_slot5 ! j)) = (c', False)" "Len c' = Cap full64_slot5"
    "bits full64_slot5 ! handIdx full64_slot5 AND handMask full64_slot5 \<noteq> 0 \<longrightarrow>
       j = handIdx full64_slot5 * 64 +
           TrailingZeros64 (bits full64_slot5 ! handIdx full64_slot5 AND handMask full64_slot5)"
    by blast
  then have "Add full64_slot5 64 640 = Inr (c', 105, True) \<and> idx c' 64 = Some 5 \<and>
      Has c' 5 = (c', False) \<and> Len c' = 64"
    using a by (simp add: tz_32)
  with a wf_full64_slot5 show ?thesis by blast
qed

text \<open>
  Claim C3, as the code has it. When the word under the hand has no set bit inside the
  hand mask, that word is ORed with the hand mask (its bits outside the mask stay as they
  are), the mask becomes all-ones, and the hand stops at the first non-zero word after
  it, \<open>d\<close> words further with wrap-around; the \<open>d\<close> words passed on the way were zero and
  are all-ones afterwards, every other word is unchanged.
\<close>

theorem locate_second_chances:
  assumes h: "handIdx c < length (bits c)"
    and m: "handMask c \<noteq> 0"
    and z: "bits c ! handIdx c AND handMask c = 0"
  shows "\<exists>c' w d. locate c = Inr (c', w) \<and> d < length (bits c) \<and>
           handIdx c' = (handIdx c + 1 + d) mod length (bits c) \<and> handMask c' = - 1 \<and>
           w = bits c' ! handIdx c' \<and> w \<noteq> 0 \<and> length (bits c') = length (bits c) \<and>
           bits c' ! handIdx c = bits c ! handIdx c OR handMask c \<and>
           (\<forall>t<d. bits c ! ((handIdx c + 1 + t) mod length (bits c)) = 0 \<and>
                  bits c' ! ((handIdx c + 1 + t) mod length (bits c)) = - 1) \<and>
           (\<forall>j<length (bits c). j \<noteq> handIdx c \<longrightarrow>
                (\<forall>t<d. j \<noteq> (handIdx c + 1 + t) mod length (bits c)) \<longrightarrow>
                bits c' ! j = bits c ! j)"
proof -
  let ?n = "length (bits c)"
  let ?bs1 = "(bits c)[handIdx c := bits c ! handIdx c OR handMask c]"
  let ?h1 = "next_hand ?n (handIdx c)"
  have start: "?bs1 ! handIdx c \<noteq> 0"
  proof
    assume "?bs1 ! handIdx c = 0"
    with h have "bits c ! handIdx c OR handMask c = 0" by simp
    then have "handMask c = 0" by (simp add: or_eq_0_iff)
    with m show False by simp
  qed
  have "?h1 < length ?bs1" using h by (simp add: next_hand_less)
  moreover have "handIdx c < length ?bs1" using h by simp
  ultimately obtain d where d: "d < length ?bs1"
    and zs0: "\<forall>t<d. ?bs1 ! ((?h1 + t) mod length ?bs1) = 0"
    and nz0: "?bs1 ! ((?h1 + d) mod length ?bs1) \<noteq> 0"
    using first_nonzero_offset [of ?h1 ?bs1 "handIdx c"] start by blast
  have i: "(?h1 + t) mod ?n = (handIdx c + 1 + t) mod ?n" for t
    using h by (simp add: next_hand_mod)
  have d': "d < ?n" using d by simp
  have zs: "\<forall>t<d. ?bs1 ! ((handIdx c + 1 + t) mod ?n) = 0" using zs0 by (simp add: i)
  have nz: "?bs1 ! ((handIdx c + 1 + d) mod ?n) \<noteq> 0" using nz0 by (simp add: i)
  from locate_sweep [OF h z d' zs nz] obtain bs' where
    loc: "locate c = Inr (c\<lparr>bits := bs', handIdx := (handIdx c + 1 + d) mod ?n, handMask := - 1\<rparr>,
                         ?bs1 ! ((handIdx c + 1 + d) mod ?n))"
    and len: "length bs' = ?n"
    and ones: "\<forall>t<d. bs' ! ((handIdx c + 1 + t) mod ?n) = - 1"
    and same: "\<forall>j<?n. (\<forall>t<d. j \<noteq> (handIdx c + 1 + t) mod ?n) \<longrightarrow> bs' ! j = ?bs1 ! j"
    by blast
  have visited_ne: "(handIdx c + 1 + t) mod ?n \<noteq> handIdx c" if "t < d" for t
    using zs that start by auto
  from h have "0 < ?n" by (cases "bits c") simp_all
  then have fin: "(handIdx c + 1 + d) mod ?n < ?n" by (rule mod_less_divisor)
  have final_unvisited: "\<forall>t<d. (handIdx c + 1 + d) mod ?n \<noteq> (handIdx c + 1 + t) mod ?n"
    using zs nz by auto
  have w: "bs' ! ((handIdx c + 1 + d) mod ?n) = ?bs1 ! ((handIdx c + 1 + d) mod ?n)"
    using same fin final_unvisited by blast
  have st: "bs' ! handIdx c = bits c ! handIdx c OR handMask c"
  proof -
    have "\<forall>t<d. handIdx c \<noteq> (handIdx c + 1 + t) mod ?n" using visited_ne by metis
    with same h have "bs' ! handIdx c = ?bs1 ! handIdx c" by blast
    with h show ?thesis by simp
  qed
  have vis: "\<forall>t<d. bits c ! ((handIdx c + 1 + t) mod ?n) = 0 \<and>
                   bs' ! ((handIdx c + 1 + t) mod ?n) = - 1"
  proof (intro allI impI conjI)
    fix t assume t: "t < d"
    from zs t have "?bs1 ! ((handIdx c + 1 + t) mod ?n) = 0" by blast
    with visited_ne [OF t] show "bits c ! ((handIdx c + 1 + t) mod ?n) = 0" by simp
    from ones t show "bs' ! ((handIdx c + 1 + t) mod ?n) = - 1" by blast
  qed
  have oth: "\<forall>j<?n. j \<noteq> handIdx c \<longrightarrow> (\<forall>t<d. j \<noteq> (handIdx c + 1 + t) mod ?n) \<longrightarrow>
                bs' ! j = bits c ! j"
  proof (intro allI impI)
    fix j assume "j < ?n" "j \<noteq> handIdx c" "\<forall>t<d. j \<noteq> (handIdx c + 1 + t) mod ?n"
    with same have "bs' ! j = ?bs1 ! j" by blast
    with \<open>j \<noteq> handIdx c\<close> show "bs' ! j = bits c ! j" by simp
  qed
  show ?thesis
    apply (rule exI [of _ "c\<lparr>bits := bs', handIdx := (handIdx c + 1 + d) mod ?n, handMask := - 1\<rparr>"])
    apply (rule exI [of _ "?bs1 ! ((handIdx c + 1 + d) mod ?n)"])
    apply (rule exI [of _ d])
    using loc d' len w nz st vis oth by simp
qed

theorem locate_second_chances_witness:
  "handIdx second_word_slot5 < length (bits second_word_slot5) \<and>
   handMask second_word_slot5 \<noteq> 0 \<and>
   bits second_word_slot5 ! handIdx second_word_slot5 AND handMask second_word_slot5 = 0 \<and>
   (\<exists>c' w. locate second_word_slot5 = Inr (c', w) \<and>
      bits c' ! 0 = push_bit 3 (- 1) \<and> handMask c' = - 1 \<and> w \<noteq> 0)"
proof -
  have a: "handIdx second_word_slot5 < length (bits second_word_slot5)"
    by (simp add: second_word_slot5_def full_cache_def)
  have b: "handMask second_word_slot5 \<noteq> 0"
    by (simp add: second_word_slot5_def full_cache_def not_mask_eq_0_iff)
  have c: "bits second_word_slot5 ! handIdx second_word_slot5 AND handMask second_word_slot5 = 0"
    by (simp add: second_word_slot5_def full_cache_def)
  from locate_second_chances [OF a b c] obtain c' w where
    "locate second_word_slot5 = Inr (c', w)" "handMask c' = - 1" "w \<noteq> 0"
    "bits c' ! handIdx second_word_slot5 =
       bits second_word_slot5 ! handIdx second_word_slot5 OR handMask second_word_slot5"
    by blast
  then have "locate second_word_slot5 = Inr (c', w) \<and>
      bits c' ! 0 = push_bit 3 (- 1) \<and> handMask c' = - 1 \<and> w \<noteq> 0"
    by (simp add: second_word_slot5_def full_cache_def)
  with a b c show ?thesis by blast
qed

text \<open>
  Claim C3, as stated, fails on the cache of 128 slots with the hand in word 0 past bit 2,
  word 0 zero and slot 69 ejectable: \<open>Add\<close> moves the hand to word 1 and leaves word 0 at
  \<open>0xFFFFFFFFFFFFFFF8\<close>, not all-ones.
\<close>

theorem Add_start_word_not_all_ones:
  "Len second_word_slot5 = Cap second_word_slot5 \<and> idx second_word_slot5 200 = None \<and>
   handIdx second_word_slot5 = 0 \<and>
   bits second_word_slot5 ! 0 AND handMask second_word_slot5 = 0 \<and>
   \<not> isl (Add second_word_slot5 200 7) \<and>
   handIdx (fst (projr (Add second_word_slot5 200 7))) = 1 \<and>
   bits (fst (projr (Add second_word_slot5 200 7))) ! 0 = - 8 \<and>
   bits (fst (projr (Add second_word_slot5 200 7))) ! 0 \<noteq> - 1"
  by (simp add: second_word_slot5_def full_cache_def Len_def Cap_def Add_def locate_def
      sweep.simps next_hand_def evict_def tz_32 mask_eq_exp_minus_1 Let_def)

text \<open>
  Claim C10. On a full cache that satisfies the invariant (the hand inside the bitmap,
  the hand mask all-ones shifted left by less than 64), \<open>Add\<close> returns without panic for
  every key; when the key is absent and the word under the hand has no set bit inside the
  mask, the loop of the sweep ends after loading at most \<open>length bits\<close> words, one pass
  over the bitmap.
\<close>

theorem Add_total_on_full_cache:
  assumes wf: "wf c" and full: "Len c = Cap c"
  shows "(\<exists>c' old. Add c k v = Inr (c', old, True)) \<and>
         (idx c k = None \<and> bits c ! handIdx c AND handMask c = 0 \<longrightarrow>
            (\<exists>r. sweep_fuel (length (bits c))
                    ((bits c)[handIdx c := bits c ! handIdx c OR handMask c])
                    (next_hand (length (bits c)) (handIdx c)) = Some (Inr r) \<and>
                  sweep ((bits c)[handIdx c := bits c ! handIdx c OR handMask c])
                    (next_hand (length (bits c)) (handIdx c)) = Inr r))"
proof
  from wf have h: "handIdx c < length (bits c)" and mz: "handMask c \<noteq> 0"
    and li: "length (items c) = 64 * length (bits c)"
    by (simp_all add: wf_def hand_ok_def hand_ok_mask)
  show "\<exists>c' old. Add c k v = Inr (c', old, True)"
  proof (cases "idx c k")
    case (Some i)
    from Add_overwrite [OF wf Some, of v] show ?thesis by blast
  next
    case None
    from full have nf: "\<not> len c < length (items c)" by (simp add: Len_def Cap_def)
    from locate_ok [OF h mz] obtain c1 w where
      loc: "locate c = Inr (c1, w)" and w: "w \<noteq> 0" and l1: "length (bits c1) = length (bits c)"
      and h1: "handIdx c1 < length (bits c)" and i1: "items c1 = items c"
      by blast
    from h1 l1 have "handIdx c1 < length (bits c1)" by simp
    moreover from li l1 i1 have "length (items c1) = 64 * length (bits c1)" by simp
    ultimately have "\<exists>c'. evict c1 w k v =
        Inr (c', value' (items c1 ! (handIdx c1 * 64 + TrailingZeros64 w)), True)"
      using evict_ok(2) [of c1 w k v] w by simp
    moreover have "Add c k v = evict c1 w k v" using None nf loc by (rule Add_full)
    ultimately show ?thesis by auto
  qed
next
  let ?n = "length (bits c)"
  let ?bs1 = "(bits c)[handIdx c := bits c ! handIdx c OR handMask c]"
  let ?h1 = "next_hand ?n (handIdx c)"
  from wf have h: "handIdx c < length (bits c)" and mz: "handMask c \<noteq> 0"
    by (simp_all add: wf_def hand_ok_def hand_ok_mask)
  show "idx c k = None \<and> bits c ! handIdx c AND handMask c = 0 \<longrightarrow>
          (\<exists>r. sweep_fuel ?n ?bs1 ?h1 = Some (Inr r) \<and> sweep ?bs1 ?h1 = Inr r)"
  proof
    have "?bs1 ! handIdx c \<noteq> 0" using h mz by (simp add: or_eq_0_iff)
    moreover have "?bs1 ! handIdx c \<in> set ?bs1" using h by (intro nth_mem) simp
    ultimately have "length (filter (\<lambda>w. w = 0) ?bs1) < length ?bs1"
      by (intro length_filter_less) auto
    then have "length (filter (\<lambda>w. w = 0) ?bs1) < ?n" by simp
    from sweep_fuel_enough [OF this, of ?h1] obtain r where f: "sweep_fuel ?n ?bs1 ?h1 = Some r"
      by blast
    then have s: "sweep ?bs1 ?h1 = r" by (rule sweep_fuel_sound)
    have "?h1 < length ?bs1" using h by (simp add: next_hand_less)
    from sweep_ok [OF this] s obtain r' where "r = Inr r'" by auto
    with f s have "sweep_fuel ?n ?bs1 ?h1 = Some (Inr r') \<and> sweep ?bs1 ?h1 = Inr r'" by simp
    then show "\<exists>r. sweep_fuel ?n ?bs1 ?h1 = Some (Inr r) \<and> sweep ?bs1 ?h1 = Inr r" ..
  qed
qed

theorem Add_total_on_full_cache_witness:
  "wf second_word_slot5 \<and> Len second_word_slot5 = Cap second_word_slot5 \<and>
   idx second_word_slot5 200 = None \<and>
   bits second_word_slot5 ! handIdx second_word_slot5 AND handMask second_word_slot5 = 0 \<and>
   length (bits second_word_slot5) = 2 \<and>
   (\<exists>c' old. Add second_word_slot5 200 7 = Inr (c', old, True)) \<and>
   (\<exists>r. sweep_fuel (length (bits second_word_slot5))
          ((bits second_word_slot5)[handIdx second_word_slot5 :=
             bits second_word_slot5 ! handIdx second_word_slot5 OR handMask second_word_slot5])
          (next_hand (length (bits second_word_slot5)) (handIdx second_word_slot5))
        = Some (Inr r))"
proof -
  have a: "Len second_word_slot5 = Cap second_word_slot5" "idx second_word_slot5 200 = None"
    by (simp_all add: second_word_slot5_def full_cache_def Len_def Cap_def)
  have b: "bits second_word_slot5 ! handIdx second_word_slot5 AND handMask second_word_slot5 = 0"
    "length (bits second_word_slot5) = 2"
    by (simp_all add: second_word_slot5_def full_cache_def)
  from Add_total_on_full_cache [OF wf_second_word_slot5 a(1), of 200 7] a(2) b(1)
  have "(\<exists>c' old. Add second_word_slot5 200 7 = Inr (c', old, True)) \<and>
   (\<exists>r. sweep_fuel (length (bits second_word_slot5))
          ((bits second_word_slot5)[handIdx second_word_slot5 :=
             bits second_word_slot5 ! handIdx second_word_slot5 OR handMask second_word_slot5])
          (next_hand (length (bits second_word_slot5)) (handIdx second_word_slot5))
        = Some (Inr r))"
    by blast
  with a b wf_second_word_slot5 show ?thesis by blast
qed

section \<open>Has\<close>

text \<open>
  Claim C9. \<open>Has k\<close> returns exactly whether \<open>k\<close> is in the index map and leaves the
  whole cache state as it was: index map, slots, ejectable bits, hand and count.
\<close>

theorem Has_presence_and_frame:
  "Has c k = (c, k \<in> dom (idx c))"
  by (auto simp add: Has_def)

end
